theory Spec2Isabelle
  imports Main "HOL-Library.Monad_Syntax" "HOL-Library.Sublist"
begin

section \<open>Wildcard pattern matching with an Aho-Corasick automaton\<close>

text \<open>
  The program builds a trie from the literal parts of a pattern and from the forbidden
  characters of its complements, turns the trie into an Aho-Corasick automaton
  (fallback links, inherited result lists) and scans the text once, counting per candidate
  start offset how many parts have matched.

  The automaton lives on the C++ heap: states and result records are allocated with
  \<open>new\<close> and refer to each other by pointers, and result lists share their tails. The
  model keeps an explicit store: a pointer is an address (an index into the list of
  allocated objects), the null pointer is \<open>None\<close>. Every function that dereferences a
  pointer, reads a vector element or may loop forever returns an \<open>option\<close>; \<open>None\<close>
  stands for "no result": an invalid address, an index out of range, a division by zero or
  a loop that does not end.
\<close>

subsection \<open>Data\<close>

record Result =
  pat_idx :: nat
  length_r :: nat
  next_r :: "nat option"

record Transition =
  ch :: char
  dest :: nat

text \<open>
  \<open>results_back\<close> is a \<open>Result **\<close>: it points either to the \<open>results\<close> field of its
  own state (the initial value) or to the \<open>next\<close> field of a result record.
\<close>

datatype back_ptr = OwnResults | NextOf nat

record State =
  transitions :: "Transition list"
  fallback :: "nat option"
  results :: "nat option"
  results_back :: back_ptr

record heap =
  states :: "State list"
  rnodes :: "Result list"

text \<open>
  A part is a pointer into the pattern string with a length; the model keeps the
  \<open>length\<close> bytes it points to, so the \<open>length\<close> field is the length of \<open>chars\<close>.
\<close>

record PartInfo =
  offset :: nat
  chars :: string

record Complement =
  index :: nat
  ch_c :: char

record Pattern =
  parts :: "PartInfo list"
  complement :: "Complement list"
  length_p :: nat

subsection \<open>Memory and vectors\<close>

definition getState :: "heap \<Rightarrow> nat \<Rightarrow> State option" where
  "getState h p = (if p < length (states h) then Some (states h ! p) else None)"

definition getResult :: "heap \<Rightarrow> nat \<Rightarrow> Result option" where
  "getResult h r = (if r < length (rnodes h) then Some (rnodes h ! r) else None)"

definition putState :: "heap \<Rightarrow> nat \<Rightarrow> State \<Rightarrow> heap option" where
  "putState h p s =
     (if p < length (states h) then Some (h\<lparr>states := (states h)[p := s]\<rparr>) else None)"

definition putResult :: "heap \<Rightarrow> nat \<Rightarrow> Result \<Rightarrow> heap option" where
  "putResult h r n =
     (if r < length (rnodes h) then Some (h\<lparr>rnodes := (rnodes h)[r := n]\<rparr>) else None)"

definition vec_get :: "'a list \<Rightarrow> nat \<Rightarrow> 'a option" where
  "vec_get xs i = (if i < length xs then Some (xs ! i) else None)"

definition vec_set :: "'a list \<Rightarrow> nat \<Rightarrow> 'a \<Rightarrow> 'a list option" where
  "vec_set xs i v = (if i < length xs then Some (xs[i := v]) else None)"

text \<open>\<open>new State {}\<close>: no transitions, null fallback, no results, \<open>results_back\<close>
  pointing to the state's own \<open>results\<close> field.\<close>

definition newState :: State where
  "newState = \<lparr>transitions = [], fallback = None, results = None, results_back = OwnResults\<rparr>"

definition allocState :: "heap \<Rightarrow> heap \<times> nat" where
  "allocState h = (h\<lparr>states := states h @ [newState]\<rparr>, length (states h))"

definition allocResult :: "heap \<Rightarrow> Result \<Rightarrow> heap \<times> nat" where
  "allocResult h r = (h\<lparr>rnodes := rnodes h @ [r]\<rparr>, length (rnodes h))"

text \<open>The assignment \<open>*stt->results_back = v\<close>.\<close>

definition storeBack :: "heap \<Rightarrow> nat \<Rightarrow> nat option \<Rightarrow> heap option" where
  "storeBack h stt v = do {
     s \<leftarrow> getState h stt;
     case results_back s of
       OwnResults \<Rightarrow> putState h stt (s\<lparr>results := v\<rparr>)
     | NextOf k \<Rightarrow> do { n \<leftarrow> getResult h k; putResult h k (n\<lparr>next_r := v\<rparr>) }
   }"

subsection \<open>Building the trie\<close>

definition addResult :: "heap \<Rightarrow> nat \<Rightarrow> nat \<Rightarrow> nat \<Rightarrow> heap option" where
  "addResult h stt pat_idx' length' = do {
     let (h1, nr) = allocResult h \<lparr>pat_idx = pat_idx', length_r = length', next_r = None\<rparr>;
     h2 \<leftarrow> storeBack h1 stt (Some nr);
     s \<leftarrow> getState h2 stt;
     putState h2 stt (s\<lparr>results_back := NextOf nr\<rparr>)
   }"

definition findTransition :: "State \<Rightarrow> char \<Rightarrow> Transition option" where
  "findTransition stt c = find (\<lambda>t. ch t = c) (transitions stt)"

text \<open>The loop of \<open>extendForest\<close>: walk from \<open>s\<close> along the characters, creating the
  states that are missing.\<close>

fun extendForest_walk :: "heap \<Rightarrow> nat \<Rightarrow> string \<Rightarrow> (heap \<times> nat) option" where
  "extendForest_walk h s [] = Some (h, s)"
| "extendForest_walk h s (c # cs) = do {
     st \<leftarrow> getState h s;
     case findTransition st c of
       Some t \<Rightarrow> extendForest_walk h (dest t) cs
     | None \<Rightarrow> do {
         let (h1, ns) = allocState h;
         h2 \<leftarrow> putState h1 s (st\<lparr>transitions := transitions st @ [\<lparr>ch = c, dest = ns\<rparr>]\<rparr>);
         extendForest_walk h2 ns cs
       }
   }"

definition extendForest :: "heap \<Rightarrow> nat \<Rightarrow> string \<Rightarrow> nat \<Rightarrow> heap option" where
  "extendForest h root cs idx = do {
     (h1, s) \<leftarrow> extendForest_walk h root cs;
     addResult h1 s idx (length cs)
   }"

text \<open>The two \<open>for\<close> statements of \<open>buildForestFromPattern\<close>, with the index \<open>i\<close>.\<close>

fun insertParts :: "heap \<Rightarrow> nat \<Rightarrow> PartInfo list \<Rightarrow> nat \<Rightarrow> heap option" where
  "insertParts h root [] i = Some h"
| "insertParts h root (part # ps) i = do {
     h1 \<leftarrow> extendForest h root (chars part) i;
     insertParts h1 root ps (i + 1)
   }"

fun insertComplements :: "heap \<Rightarrow> nat \<Rightarrow> Complement list \<Rightarrow> nat \<Rightarrow> nat \<Rightarrow> heap option" where
  "insertComplements h root [] n i = Some h"
| "insertComplements h root (c # cs) n i = do {
     h1 \<leftarrow> extendForest h root [ch_c c] (n + i);
     insertComplements h1 root cs n (i + 1)
   }"

definition emptyHeap :: heap where
  "emptyHeap = \<lparr>states = [], rnodes = []\<rparr>"

definition buildForestFromPattern :: "Pattern \<Rightarrow> (heap \<times> nat) option" where
  "buildForestFromPattern pat = do {
     let (h0, root) = allocState emptyHeap;
     let n = length (parts pat);
     h1 \<leftarrow> insertParts h0 root (parts pat) 0;
     h2 \<leftarrow> insertComplements h1 root (complement pat) n 0;
     Some (h2, root)
   }"

subsection \<open>Fallback links and inherited results\<close>

partial_function (option) findFallback :: "heap \<Rightarrow> nat option \<Rightarrow> char \<Rightarrow> nat option option" where
  "findFallback h p c =
     (case p of
        None \<Rightarrow> Some None
      | Some a \<Rightarrow> do {
          st \<leftarrow> getState h a;
          case findTransition st c of
            Some t \<Rightarrow> Some (Some (dest t))
          | None \<Rightarrow> findFallback h (fallback st) c
        })"

declare findFallback.simps [code]

text \<open>The body of the loop over the transitions of the state taken from the queue:
  \<open>sf\<close> is that state's fallback, read before the loop.\<close>

fun linkChildren ::
  "heap \<Rightarrow> nat \<Rightarrow> nat option \<Rightarrow> Transition list \<Rightarrow> nat list \<Rightarrow> (heap \<times> nat list) option" where
  "linkChildren h root sf [] q = Some (h, q)"
| "linkChildren h root sf (t # ts) q = do {
     let d = dest t;
     let q1 = q @ [d];
     df \<leftarrow> findFallback h sf (ch t);
     ds \<leftarrow> getState h d;
     h1 \<leftarrow> putState h d (ds\<lparr>fallback := Some (case df of Some f \<Rightarrow> f | None \<Rightarrow> root)\<rparr>);
     ds1 \<leftarrow> getState h1 d;
     f \<leftarrow> fallback ds1;
     fs \<leftarrow> getState h1 f;
     h2 \<leftarrow> storeBack h1 d (results fs);
     linkChildren h2 root sf ts q1
   }"

partial_function (option) stateMachineLoop :: "heap \<Rightarrow> nat \<Rightarrow> nat list \<Rightarrow> heap option" where
  "stateMachineLoop h root q =
     (case q of
        [] \<Rightarrow> Some h
      | s # q1 \<Rightarrow> do {
          st \<leftarrow> getState h s;
          (h1, q2) \<leftarrow> linkChildren h root (fallback st) (transitions st) q1;
          stateMachineLoop h1 root q2
        })"

declare stateMachineLoop.simps [code]

definition forestIntoStateMachine :: "heap \<Rightarrow> nat \<Rightarrow> heap option" where
  "forestIntoStateMachine h root = stateMachineLoop h root [root]"

subsection \<open>Scanning\<close>

partial_function (option) stepMatching :: "heap \<Rightarrow> nat \<Rightarrow> char \<Rightarrow> (bool \<times> nat) option" where
  "stepMatching h cs c = do {
     st \<leftarrow> getState h cs;
     case findTransition st c of
       Some t \<Rightarrow> Some (True, dest t)
     | None \<Rightarrow>
        (case fallback st of
           Some f \<Rightarrow> stepMatching h f c
         | None \<Rightarrow> Some (False, cs))
   }"

declare stepMatching.simps [code]

text \<open>
  \<open>size_t\<close> is an unsigned 64-bit integer: sums and differences are taken modulo
  \<open>2 ^ 64\<close>. The scanner is written over a mode of arithmetic: \<open>Wrapping\<close> is what the
  machine does; \<open>Checked\<close> behaves the same except that a subtraction whose true result
  would be negative has no result. The program is the \<open>Wrapping\<close> instance.
\<close>

datatype arith = Wrapping | Checked

definition size_add :: "nat \<Rightarrow> nat \<Rightarrow> nat" where
  "size_add a b = (a + b) mod 2 ^ 64"

definition size_sub :: "arith \<Rightarrow> nat \<Rightarrow> nat \<Rightarrow> nat option" where
  "size_sub m a b =
     (case m of
        Wrapping \<Rightarrow> Some ((a + (2 ^ 64 - b mod 2 ^ 64)) mod 2 ^ 64)
      | Checked \<Rightarrow> if b \<le> a then Some (a - b) else None)"

definition size_mod :: "nat \<Rightarrow> nat \<Rightarrow> nat option" where
  "size_mod a b = (if b = 0 then None else Some (a mod b))"

text \<open>The offset, within the pattern, of the last character of the part or complement
  that a result record stands for.\<close>

definition totalOff :: "arith \<Rightarrow> Pattern \<Rightarrow> nat \<Rightarrow> Result \<Rightarrow> nat option" where
  "totalOff m pat n_parts r =
     (if pat_idx r \<ge> n_parts then do {
        c_idx \<leftarrow> size_sub m (pat_idx r) n_parts;
        c \<leftarrow> vec_get (complement pat) c_idx;
        Some (index c)
      } else do {
        part \<leftarrow> vec_get (parts pat) (pat_idx r);
        size_sub m (size_add (offset part) (length_r r)) 1
      })"

text \<open>The body of the loop over the result records of the current state.\<close>

definition processResult ::
  "arith \<Rightarrow> Pattern \<Rightarrow> nat \<Rightarrow> nat \<Rightarrow> nat \<Rightarrow> nat \<Rightarrow> nat list \<times> bool list \<Rightarrow> Result
     \<Rightarrow> (nat list \<times> bool list) option" where
  "processResult m pat n_parts str_len i match_shift pd r = do {
     let (partial_matches, disabled) = pd;
     total_off \<leftarrow> totalOff m pat n_parts r;
     if i < total_off then Some pd
     else do {
       start \<leftarrow> size_sub m i total_off;
       if size_add start (length_p pat) > str_len then Some pd
       else do {
         t \<leftarrow> size_sub m (size_add (length_p pat) match_shift) total_off;
         idx \<leftarrow> size_mod t (length_p pat);
         if pat_idx r \<ge> n_parts then do {
           disabled1 \<leftarrow> vec_set disabled idx True;
           Some (partial_matches, disabled1)
         } else do {
           dis \<leftarrow> vec_get disabled idx;
           if \<not> dis then do {
             v \<leftarrow> vec_get partial_matches idx;
             partial_matches1 \<leftarrow> vec_set partial_matches idx (size_add v 1);
             Some (partial_matches1, disabled)
           } else Some pd
         }
       }
     }
   }"

partial_function (option) forResults ::
  "heap \<Rightarrow> ('a \<Rightarrow> Result \<Rightarrow> 'a option) \<Rightarrow> nat option \<Rightarrow> 'a \<Rightarrow> 'a option" where
  "forResults h f r acc =
     (case r of
        None \<Rightarrow> Some acc
      | Some k \<Rightarrow> do {
          n \<leftarrow> getResult h k;
          acc1 \<leftarrow> f acc n;
          forResults h f (next_r n) acc1
        })"

declare forResults.simps [code]

text \<open>The test that ends an iteration of the scan, with the short-circuit order of the
  source.\<close>

definition emitMatch ::
  "arith \<Rightarrow> Pattern \<Rightarrow> nat \<Rightarrow> nat \<Rightarrow> nat \<Rightarrow> nat list \<Rightarrow> bool list \<Rightarrow> nat list
     \<Rightarrow> nat list option" where
  "emitMatch m pat n_parts i match_shift partial_matches disabled matches =
     (if size_add i 1 \<ge> length_p pat then do {
        dis \<leftarrow> vec_get disabled match_shift;
        if \<not> dis then do {
          v \<leftarrow> vec_get partial_matches match_shift;
          if v = n_parts then do {
            start \<leftarrow> size_sub m (size_add i 1) (length_p pat);
            Some (matches @ [start])
          } else Some matches
        } else Some matches
      } else Some matches)"

record scan_state =
  partial_matches :: "nat list"
  disabled :: "bool list"
  match_shift :: nat
  matches :: "nat list"
  cs :: nat

fun scanLoop ::
  "arith \<Rightarrow> heap \<Rightarrow> Pattern \<Rightarrow> nat \<Rightarrow> nat \<Rightarrow> string \<Rightarrow> scan_state \<Rightarrow> nat list option" where
  "scanLoop m h pat str_len i [] st = Some (matches st)"
| "scanLoop m h pat str_len i (c # rest) st = do {
     let n_parts = length (parts pat);
     pm1 \<leftarrow> vec_set (partial_matches st) (match_shift st) 0;
     dis1 \<leftarrow> vec_set (disabled st) (match_shift st) False;
     (found, cs1) \<leftarrow> stepMatching h (cs st) c;
     (pm2, dis2) \<leftarrow>
       (if found then do {
          s \<leftarrow> getState h cs1;
          forResults h (processResult m pat n_parts str_len i (match_shift st))
            (results s) (pm1, dis1)
        } else Some (pm1, dis1));
     let ms = size_add (match_shift st) 1;
     let ms1 = (if ms = length_p pat then 0 else ms);
     matches1 \<leftarrow> emitMatch m pat n_parts i ms1 pm2 dis2 (matches st);
     scanLoop m h pat str_len (i + 1) rest
       \<lparr>partial_matches = pm2, disabled = dis2, match_shift = ms1,
        matches = matches1, cs = cs1\<rparr>
   }"

definition scanFrom :: "arith \<Rightarrow> heap \<Rightarrow> nat \<Rightarrow> Pattern \<Rightarrow> string \<Rightarrow> nat list option" where
  "scanFrom m h root pat str =
     scanLoop m h pat (length str) 0 str
       \<lparr>partial_matches = replicate (length_p pat) 0,
        disabled = replicate (length_p pat) False,
        match_shift = 0, matches = [], cs = root\<rparr>"

definition getTotalMatches :: "heap \<Rightarrow> nat \<Rightarrow> Pattern \<Rightarrow> string \<Rightarrow> nat list option" where
  "getTotalMatches h root pat str = scanFrom Wrapping h root pat str"

text \<open>What \<open>main\<close> does with a pattern and a text, after parsing and before printing.\<close>

definition searchPattern :: "Pattern \<Rightarrow> string \<Rightarrow> nat list option" where
  "searchPattern pat str = do {
     (h0, root) \<leftarrow> buildForestFromPattern pat;
     h \<leftarrow> forestIntoStateMachine h0 root;
     getTotalMatches h root pat str
   }"


subsection \<open>Reading the automaton\<close>

text \<open>The state reached from \<open>a\<close> along a string, by transitions only.\<close>

fun walk :: "heap \<Rightarrow> nat \<Rightarrow> string \<Rightarrow> nat option" where
  "walk h a [] = (if a < length (states h) then Some a else None)"
| "walk h a (c # w) = do {
     st \<leftarrow> getState h a;
     t \<leftarrow> findTransition st c;
     walk h (dest t) w
   }"

text \<open>The records met by the loop \<open>for (r = p; r; r = r->next)\<close>, as pairs of
  \<open>pat_idx\<close> and \<open>length\<close>.\<close>

definition resultList :: "heap \<Rightarrow> nat option \<Rightarrow> (nat \<times> nat) list option" where
  "resultList h p = forResults h (\<lambda>acc n. Some (acc @ [(pat_idx n, length_r n)])) p []"

definition trans_of :: "heap \<Rightarrow> nat \<Rightarrow> Transition list" where
  "trans_of h a = transitions (states h ! a)"

definition fb :: "heap \<Rightarrow> nat \<Rightarrow> nat option" where
  "fb h a = fallback (states h ! a)"

definition res :: "heap \<Rightarrow> nat \<Rightarrow> nat option" where
  "res h a = results (states h ! a)"

definition rb :: "heap \<Rightarrow> nat \<Rightarrow> back_ptr" where
  "rb h a = results_back (states h ! a)"

definition rec_of :: "Result \<Rightarrow> nat \<times> nat" where
  "rec_of n = (pat_idx n, length_r n)"

subsection \<open>Invariants of the trie\<close>

text \<open>
  \<open>trie h P\<close>: the states of \<open>h\<close> form a trie with root \<open>0\<close>, and \<open>P a\<close> is the string
  that leads from the root to state \<open>a\<close>.
\<close>

definition trie :: "heap \<Rightarrow> (nat \<Rightarrow> string) \<Rightarrow> bool" where
  "trie h P \<longleftrightarrow>
     0 < length (states h) \<and> P 0 = [] \<and>
     (\<forall>a < length (states h). \<forall>t \<in> set (trans_of h a).
        dest t < length (states h) \<and> P (dest t) = P a @ [ch t]) \<and>
     (\<forall>a < length (states h). distinct (map ch (trans_of h a))) \<and>
     inj_on P {..<length (states h)} \<and>
     (\<forall>a < length (states h). a \<noteq> 0 \<longrightarrow>
        (\<exists>p < length (states h). \<exists>t \<in> set (trans_of h p). dest t = a))"

definition paths :: "heap \<Rightarrow> (nat \<Rightarrow> string) \<Rightarrow> string set" where
  "paths h P = P ` {..<length (states h)}"

text \<open>\<open>seg h p ks q\<close>: following \<open>next\<close> from pointer \<open>p\<close> visits the records \<open>ks\<close>
  and arrives at pointer \<open>q\<close>.\<close>

fun seg :: "heap \<Rightarrow> nat option \<Rightarrow> nat list \<Rightarrow> nat option \<Rightarrow> bool" where
  "seg h p [] q = (p = q)"
| "seg h p (k # ks) q =
     (p = Some k \<and> k < length (rnodes h) \<and> seg h (next_r (rnodes h ! k)) ks q)"

text \<open>\<open>KS a\<close> lists the addresses of the records that were added to state \<open>a\<close> itself.
  Each state's \<open>results_back\<close> points behind its own last record, and no record belongs
  to two states.\<close>

definition own_lists :: "heap \<Rightarrow> (nat \<Rightarrow> nat list) \<Rightarrow> bool" where
  "own_lists h KS \<longleftrightarrow>
     (\<forall>a. distinct (KS a) \<and> set (KS a) \<subseteq> {..<length (rnodes h)}) \<and>
     (\<forall>a \<ge> length (states h). KS a = []) \<and>
     (\<forall>a < length (states h).
        rb h a = (if KS a = [] then OwnResults else NextOf (last (KS a)))) \<and>
     (\<forall>a b. a \<noteq> b \<longrightarrow> set (KS a) \<inter> set (KS b) = {})"

text \<open>The list of a state is its own records, followed by the list of its fallback
  when the fallback is set.\<close>

definition closed :: "heap \<Rightarrow> (nat \<Rightarrow> nat list) \<Rightarrow> bool" where
  "closed h KS \<longleftrightarrow>
     (\<forall>a < length (states h).
        seg h (res h a) (KS a) (case fb h a of None \<Rightarrow> None | Some f \<Rightarrow> res h f))"

text \<open>The own records of a state are those of the inserted strings \<open>ws\<close> that equal
  its path; string number \<open>j\<close> was inserted with \<open>pat_idx = j\<close>.\<close>

definition content :: "heap \<Rightarrow> (nat \<Rightarrow> string) \<Rightarrow> (nat \<Rightarrow> nat list) \<Rightarrow> string list \<Rightarrow> bool" where
  "content h P KS ws \<longleftrightarrow>
     (\<forall>a < length (states h).
        map (\<lambda>k. rec_of (rnodes h ! k)) (KS a) =
        map (\<lambda>j. (j, length (ws ! j))) (filter (\<lambda>j. ws ! j = P a) [0..<length ws])) \<and>
     (\<forall>j < length ws. ws ! j \<in> paths h P)"

definition forest_inv ::
  "heap \<Rightarrow> (nat \<Rightarrow> string) \<Rightarrow> (nat \<Rightarrow> nat list) \<Rightarrow> string list \<Rightarrow> bool" where
  "forest_inv h P KS ws \<longleftrightarrow>
     trie h P \<and> own_lists h KS \<and> closed h KS \<and> content h P KS ws \<and>
     (\<forall>a < length (states h). fb h a = None)"

text \<open>The strings that \<open>buildForestFromPattern\<close> inserts, in order.\<close>

definition inserted :: "Pattern \<Rightarrow> string list" where
  "inserted pat = map chars (parts pat) @ map (\<lambda>c. [ch_c c]) (complement pat)"


text \<open>\<open>grows h h'\<close>: \<open>h'\<close> has the states of \<open>h\<close> and possibly new ones; nothing but
  transitions has changed in the old states, and the new states are fresh.\<close>

definition grows :: "heap \<Rightarrow> heap \<Rightarrow> bool" where
  "grows h h' \<longleftrightarrow>
     length (states h) \<le> length (states h') \<and> rnodes h' = rnodes h \<and>
     (\<forall>a < length (states h). fb h' a = fb h a \<and> res h' a = res h a \<and> rb h' a = rb h a) \<and>
     (\<forall>a. length (states h) \<le> a \<and> a < length (states h') \<longrightarrow>
        fb h' a = None \<and> res h' a = None \<and> rb h' a = OwnResults)"


subsection \<open>Longest suffixes\<close>

text \<open>\<open>lps_of W w u\<close>: \<open>u\<close> is the longest proper suffix of \<open>w\<close> that lies in \<open>W\<close>;
  \<open>ls_of\<close> is the same for suffixes that need not be proper.\<close>

definition lps_of :: "string set \<Rightarrow> string \<Rightarrow> string \<Rightarrow> bool" where
  "lps_of W w u \<longleftrightarrow>
     strict_suffix u w \<and> u \<in> W \<and> (\<forall>v. strict_suffix v w \<and> v \<in> W \<longrightarrow> length v \<le> length u)"

definition ls_of :: "string set \<Rightarrow> string \<Rightarrow> string \<Rightarrow> bool" where
  "ls_of W w u \<longleftrightarrow>
     suffix u w \<and> u \<in> W \<and> (\<forall>v. suffix v w \<and> v \<in> W \<longrightarrow> length v \<le> length u)"

text \<open>\<open>ext_of W w c u\<close>: \<open>u\<close> is the longest suffix of \<open>w\<close> that can be extended by
  \<open>c\<close> inside \<open>W\<close>.\<close>

definition ext_of :: "string set \<Rightarrow> string \<Rightarrow> char \<Rightarrow> string \<Rightarrow> bool" where
  "ext_of W w c u \<longleftrightarrow>
     suffix u w \<and> u @ [c] \<in> W \<and> (\<forall>v. suffix v w \<and> v @ [c] \<in> W \<longrightarrow> length v \<le> length u)"

definition no_ext :: "string set \<Rightarrow> string \<Rightarrow> char \<Rightarrow> bool" where
  "no_ext W w c \<longleftrightarrow> (\<forall>v. suffix v w \<longrightarrow> v @ [c] \<notin> W)"

definition prefix_closed :: "string set \<Rightarrow> bool" where
  "prefix_closed W \<longleftrightarrow> [] \<in> W \<and> (\<forall>v c. v @ [c] \<in> W \<longrightarrow> v \<in> W)"


subsection \<open>Invariants of the automaton\<close>

text \<open>
  \<open>D\<close> is the set of states whose fallback has been computed (the root counts as one of
  them). The fallback of such a state is again in \<open>D\<close> and its path is the longest proper
  suffix, among all paths of the trie, of the state's own path.
\<close>

definition auto_inv ::
  "heap \<Rightarrow> (nat \<Rightarrow> string) \<Rightarrow> (nat \<Rightarrow> nat list) \<Rightarrow> string list \<Rightarrow> nat set \<Rightarrow> bool" where
  "auto_inv h P KS ws D \<longleftrightarrow>
     trie h P \<and> own_lists h KS \<and> closed h KS \<and> content h P KS ws \<and>
     D \<subseteq> {..<length (states h)} \<and> 0 \<in> D \<and> fb h 0 = None \<and>
     (\<forall>a < length (states h). a \<notin> D \<longrightarrow> fb h a = None) \<and>
     (\<forall>a \<in> D. a \<noteq> 0 \<longrightarrow> (\<exists>f \<in> D. fb h a = Some f \<and> lps_of (paths h P) (P a) (P f)))"

text \<open>The queue of the breadth-first traversal: \<open>done\<close> are the states already taken
  from the queue \<open>q\<close>.\<close>

definition bfs_inv :: "heap \<Rightarrow> (nat \<Rightarrow> string) \<Rightarrow> nat list \<Rightarrow> nat list \<Rightarrow> bool" where
  "bfs_inv h P done q \<longleftrightarrow>
     distinct (done @ q) \<and>
     (\<forall>p < length (states h). \<forall>t \<in> set (trans_of h p).
        dest t \<in> set (done @ q) \<longleftrightarrow> p \<in> set done) \<and>
     sorted (map (\<lambda>x. length (P x)) q) \<and>
     (\<forall>x \<in> set q. length (P x) \<le> length (P (hd q)) + 1)"

text \<open>The same while the children of \<open>s\<close> are linked: the transitions \<open>pre\<close> of \<open>s\<close>
  have been handled, the transitions \<open>ts\<close> are still to come.\<close>

definition link_inv ::
  "heap \<Rightarrow> (nat \<Rightarrow> string) \<Rightarrow> nat list \<Rightarrow> nat \<Rightarrow> Transition list \<Rightarrow> Transition list
     \<Rightarrow> nat list \<Rightarrow> bool" where
  "link_inv h P done s pre ts q \<longleftrightarrow>
     s < length (states h) \<and> trans_of h s = pre @ ts \<and> distinct (done @ s # q) \<and>
     (\<forall>p < length (states h). \<forall>t \<in> set (trans_of h p).
        dest t \<in> set (done @ s # q) \<longleftrightarrow> p \<in> set done \<or> (p = s \<and> t \<in> set pre)) \<and>
     sorted (map (\<lambda>x. length (P x)) (s # q)) \<and>
     (\<forall>x \<in> set q. length (P x) \<le> length (P s) + 1)"


subsection \<open>Result lists as values\<close>

text \<open>A loop over a list whose body may have no result.\<close>

fun fold_opt :: "('a \<Rightarrow> 'b \<Rightarrow> 'a option) \<Rightarrow> 'b list \<Rightarrow> 'a \<Rightarrow> 'a option" where
  "fold_opt f [] acc = Some acc"
| "fold_opt f (x # xs) acc = f acc x \<bind> fold_opt f xs"

text \<open>\<open>full h KS a ks\<close>: \<open>ks\<close> are the own records of \<open>a\<close>, then those of its
  fallback, and so on down to the root.\<close>

inductive full :: "heap \<Rightarrow> (nat \<Rightarrow> nat list) \<Rightarrow> nat \<Rightarrow> nat list \<Rightarrow> bool" where
  full_root: "fb h a = None \<Longrightarrow> full h KS a (KS a)"
| full_step: "fb h a = Some f \<Longrightarrow> full h KS f ks \<Longrightarrow> full h KS a (KS a @ ks)"


subsection \<open>Specification of the matches\<close>

text \<open>
  The invariants of a pattern that the scan relies on: the pattern is not empty, every
  part is a non-empty string that lies inside the pattern, and every complement offset lies
  inside the pattern.
\<close>

definition pattern_ok :: "Pattern \<Rightarrow> bool" where
  "pattern_ok pat \<longleftrightarrow>
     0 < length_p pat \<and>
     (\<forall>p \<in> set (parts pat). chars p \<noteq> [] \<and> offset p + length (chars p) \<le> length_p pat) \<and>
     (\<forall>c \<in> set (complement pat). index c < length_p pat)"

text \<open>The sizes are those of objects in memory: the text together with the two vectors
  of \<open>length_p\<close> elements, and the parts together with the complements, stay below
  \<open>2 ^ 64\<close>.\<close>

definition fits :: "Pattern \<Rightarrow> string \<Rightarrow> bool" where
  "fits pat str \<longleftrightarrow>
     length str + length_p pat < 2 ^ 64 \<and>
     length (parts pat) + length (complement pat) < 2 ^ 64"

text \<open>A part matches the text at start offset \<open>s\<close>; a complement fires there.\<close>

definition part_matches :: "string \<Rightarrow> nat \<Rightarrow> PartInfo \<Rightarrow> bool" where
  "part_matches str s p \<longleftrightarrow> take (length (chars p)) (drop (s + offset p) str) = chars p"

definition complement_fires :: "string \<Rightarrow> nat \<Rightarrow> Complement \<Rightarrow> bool" where
  "complement_fires str s c \<longleftrightarrow> s + index c < length str \<and> str ! (s + index c) = ch_c c"

definition pattern_at :: "Pattern \<Rightarrow> string \<Rightarrow> nat \<Rightarrow> bool" where
  "pattern_at pat str s \<longleftrightarrow>
     (\<forall>p \<in> set (parts pat). part_matches str s p) \<and>
     (\<forall>c \<in> set (complement pat). \<not> complement_fires str s c)"

definition all_matches :: "Pattern \<Rightarrow> string \<Rightarrow> nat list" where
  "all_matches pat str = filter (pattern_at pat str) [0..<length str + 1 - length_p pat]"

text \<open>The naive search for one string: try every start offset and compare.\<close>

definition naive_search :: "string \<Rightarrow> string \<Rightarrow> nat list" where
  "naive_search needle str =
     filter (\<lambda>s. take (length needle) (drop s str) = needle) [0..<length str + 1 - length needle]"

subsection \<open>Invariants of the scan\<close>

text \<open>The value of \<open>total_off\<close> for a record, given as the pair of its \<open>pat_idx\<close> and
  \<open>length\<close>, in unbounded arithmetic.\<close>

definition toff :: "Pattern \<Rightarrow> nat \<times> nat \<Rightarrow> nat" where
  "toff pat r =
     (if length (parts pat) \<le> fst r
      then index (complement pat ! (fst r - length (parts pat)))
      else offset (parts pat ! fst r) + snd r - 1)"

text \<open>A record is one of the pattern's: its \<open>pat_idx\<close> is that of a part or of a
  complement, and a part's record carries the part's length.\<close>

definition valid_rec :: "Pattern \<Rightarrow> nat \<times> nat \<Rightarrow> bool" where
  "valid_rec pat r \<longleftrightarrow>
     fst r < length (parts pat) + length (complement pat) \<and>
     (fst r < length (parts pat) \<longrightarrow> snd r = length (chars (parts pat ! fst r)))"

text \<open>At position \<open>i\<close> with \<open>match_shift = ms\<close>, the record is not discarded and its
  slot is \<open>x\<close>.\<close>

definition hits :: "Pattern \<Rightarrow> nat \<Rightarrow> nat \<Rightarrow> nat \<Rightarrow> nat \<Rightarrow> nat \<times> nat \<Rightarrow> bool" where
  "hits pat str_len i ms x r \<longleftrightarrow>
     toff pat r \<le> i \<and> i - toff pat r + length_p pat \<le> str_len \<and>
     (length_p pat + ms - toff pat r) mod length_p pat = x"

text \<open>What one call of \<open>processResult\<close> does, in unbounded arithmetic.\<close>

definition process_spec ::
  "Pattern \<Rightarrow> nat \<Rightarrow> nat \<Rightarrow> nat \<Rightarrow> nat list \<times> bool list \<Rightarrow> nat \<times> nat \<Rightarrow> nat list \<times> bool list" where
  "process_spec pat str_len i ms pd r =
     (let x = (length_p pat + ms - toff pat r) mod length_p pat in
      if \<not> hits pat str_len i ms x r then pd
      else if length (parts pat) \<le> fst r then (fst pd, (snd pd)[x := True])
      else if snd pd ! x then pd
      else ((fst pd)[x := (fst pd ! x + 1) mod 2 ^ 64], snd pd))"

text \<open>The state of candidate \<open>s\<close> when the first \<open>i\<close> characters have been read: some
  complement has fired; the number of parts that have matched.\<close>

definition dis_at :: "Pattern \<Rightarrow> string \<Rightarrow> nat \<Rightarrow> nat \<Rightarrow> bool" where
  "dis_at pat str s i \<longleftrightarrow>
     (\<exists>c \<in> set (complement pat). s + index c < i \<and> str ! (s + index c) = ch_c c)"

definition cnt_at :: "Pattern \<Rightarrow> string \<Rightarrow> nat \<Rightarrow> nat \<Rightarrow> nat" where
  "cnt_at pat str s i =
     length (filter (\<lambda>p. s + offset p + length (chars p) \<le> i \<and> part_matches str s p) (parts pat))"

definition scan_inv ::
  "heap \<Rightarrow> (nat \<Rightarrow> string) \<Rightarrow> Pattern \<Rightarrow> string \<Rightarrow> nat \<Rightarrow> scan_state \<Rightarrow> bool" where
  "scan_inv h P pat str i st \<longleftrightarrow>
     i \<le> length str \<and>
     length (partial_matches st) = length_p pat \<and> length (disabled st) = length_p pat \<and>
     (\<forall>x < length_p pat. partial_matches st ! x < 2 ^ 64) \<and>
     match_shift st = i mod length_p pat \<and>
     cs st < length (states h) \<and> ls_of (paths h P) (take i str) (P (cs st)) \<and>
     matches st = filter (pattern_at pat str) [0..<i + 1 - length_p pat] \<and>
     (\<forall>s. s < i \<and> i < s + length_p pat \<and> s + length_p pat \<le> length str \<longrightarrow>
        disabled st ! (s mod length_p pat) = dis_at pat str s i \<and>
        (\<not> dis_at pat str s i \<longrightarrow> partial_matches st ! (s mod length_p pat) = cnt_at pat str s i))"


text \<open>A pattern is malformed when an offset lies outside the pattern or two complements
  share an offset.\<close>

definition malformed :: "Pattern \<Rightarrow> bool" where
  "malformed pat \<longleftrightarrow>
     (\<exists>p \<in> set (parts pat). length_p pat \<le> offset p) \<or>
     (\<exists>c \<in> set (complement pat). length_p pat \<le> index c) \<or>
     \<not> distinct (map index (complement pat))"

subsection \<open>Examples\<close>

text \<open>The parts \<open>ab\<close> (at offset 0) and \<open>b\<close> (at offset 1): the state of \<open>ab\<close> falls
  back to the state of \<open>b\<close>.\<close>

definition pat_ab :: Pattern where
  "pat_ab = \<lparr>parts = [\<lparr>offset = 0, chars = ''ab''\<rparr>, \<lparr>offset = 1, chars = ''b''\<rparr>],
             complement = [], length_p = 2\<rparr>"

definition forest_ab :: heap where
  "forest_ab =
     \<lparr>states =
        [\<lparr>transitions = [\<lparr>ch = CHR ''a'', dest = 1\<rparr>, \<lparr>ch = CHR ''b'', dest = 3\<rparr>],
          fallback = None, results = None, results_back = OwnResults\<rparr>,
         \<lparr>transitions = [\<lparr>ch = CHR ''b'', dest = 2\<rparr>], fallback = None,
          results = None, results_back = OwnResults\<rparr>,
         \<lparr>transitions = [], fallback = None, results = Some 0, results_back = NextOf 0\<rparr>,
         \<lparr>transitions = [], fallback = None, results = Some 1, results_back = NextOf 1\<rparr>],
      rnodes =
        [\<lparr>pat_idx = 0, length_r = 2, next_r = None\<rparr>,
         \<lparr>pat_idx = 1, length_r = 1, next_r = None\<rparr>]\<rparr>"

definition machine_ab :: heap where
  "machine_ab =
     \<lparr>states =
        [\<lparr>transitions = [\<lparr>ch = CHR ''a'', dest = 1\<rparr>, \<lparr>ch = CHR ''b'', dest = 3\<rparr>],
          fallback = None, results = None, results_back = OwnResults\<rparr>,
         \<lparr>transitions = [\<lparr>ch = CHR ''b'', dest = 2\<rparr>], fallback = Some 0,
          results = None, results_back = OwnResults\<rparr>,
         \<lparr>transitions = [], fallback = Some 3, results = Some 0, results_back = NextOf 0\<rparr>,
         \<lparr>transitions = [], fallback = Some 0, results = Some 1, results_back = NextOf 1\<rparr>],
      rnodes =
        [\<lparr>pat_idx = 0, length_r = 2, next_r = Some 1\<rparr>,
         \<lparr>pat_idx = 1, length_r = 1, next_r = None\<rparr>]\<rparr>"

text \<open>The pattern \<open>ab?c\<close> with the complement of \<open>z\<close> at the wildcard.\<close>

definition pat_z :: Pattern where
  "pat_z = \<lparr>parts = [\<lparr>offset = 0, chars = ''ab''\<rparr>, \<lparr>offset = 3, chars = ''c''\<rparr>],
            complement = [\<lparr>index = 2, ch_c = CHR ''z''\<rparr>], length_p = 4\<rparr>"

text \<open>A complement whose offset lies outside the pattern: one wildcard, and the
  complement of \<open>z\<close> at offset 2.\<close>

definition bad_pat :: Pattern where
  "bad_pat = \<lparr>parts = [], complement = [\<lparr>index = 2, ch_c = CHR ''z''\<rparr>], length_p = 1\<rparr>"

definition forest_bad :: heap where
  "forest_bad =
     \<lparr>states =
        [\<lparr>transitions = [\<lparr>ch = CHR ''z'', dest = 1\<rparr>], fallback = None,
          results = None, results_back = OwnResults\<rparr>,
         \<lparr>transitions = [], fallback = None, results = Some 0, results_back = NextOf 0\<rparr>],
      rnodes = [\<lparr>pat_idx = 0, length_r = 1, next_r = None\<rparr>]\<rparr>"

definition machine_bad :: heap where
  "machine_bad =
     \<lparr>states =
        [\<lparr>transitions = [\<lparr>ch = CHR ''z'', dest = 1\<rparr>], fallback = None,
          results = None, results_back = OwnResults\<rparr>,
         \<lparr>transitions = [], fallback = Some 0, results = Some 0, results_back = NextOf 0\<rparr>],
      rnodes = [\<lparr>pat_idx = 0, length_r = 1, next_r = None\<rparr>]\<rparr>"

definition empty_pat :: Pattern where
  "empty_pat = \<lparr>parts = [], complement = [], length_p = 0\<rparr>"

section \<open>Proofs\<close>

subsection \<open>The trie: walking and adding states\<close>

text \<open>The walk of \<open>extendForest\<close> keeps the trie invariant and touches nothing but transitions.\<close>

lemma getState_Some: "a < length (states h) \<Longrightarrow> getState h a = Some (states h ! a)"
  by (simp add: getState_def)

lemma findTransition_Some:
  "findTransition st c = Some t \<Longrightarrow> t \<in> set (transitions st) \<and> ch t = c"
  by (auto simp: findTransition_def find_Some_iff)

lemma findTransition_None:
  "findTransition st c = None \<longleftrightarrow> c \<notin> ch ` set (transitions st)"
  by (auto simp: findTransition_def find_None_iff)

lemma grows_refl: "grows h h"
  by (auto simp: grows_def)

lemma grows_trans:
  assumes "grows h h1" "grows h1 h2"
  shows "grows h h2"
proof -
  have 1: "length (states h) \<le> length (states h1)" "length (states h1) \<le> length (states h2)"
    using assms by (auto simp: grows_def)
  have "\<And>a. a < length (states h) \<Longrightarrow>
          fb h2 a = fb h a \<and> res h2 a = res h a \<and> rb h2 a = rb h a"
    using assms 1 by (simp add: grows_def)
  moreover have "\<And>a. length (states h) \<le> a \<Longrightarrow> a < length (states h2) \<Longrightarrow>
          fb h2 a = None \<and> res h2 a = None \<and> rb h2 a = OwnResults"
  proof -
    fix a assume a: "length (states h) \<le> a" "a < length (states h2)"
    show "fb h2 a = None \<and> res h2 a = None \<and> rb h2 a = OwnResults"
    proof (cases "a < length (states h1)")
      case True
      with a assms show ?thesis by (simp add: grows_def)
    next
      case False
      with a assms show ?thesis by (simp add: grows_def)
    qed
  qed
  ultimately show ?thesis using assms 1 by (simp add: grows_def)
qed

lemma trie_new_path:
  assumes tr: "trie h P" and s: "s < length (states h)"
    and nf: "c \<notin> ch ` set (trans_of h s)"
  shows "P s @ [c] \<notin> P ` {..<length (states h)}"
proof
  assume "P s @ [c] \<in> P ` {..<length (states h)}"
  then obtain x where x: "x < length (states h)" "P x = P s @ [c]" by auto
  from tr have P0: "P 0 = []" by (simp add: trie_def)
  have "x \<noteq> 0"
  proof
    assume "x = 0"
    with x P0 show False by simp
  qed
  with tr x obtain p t where pt: "p < length (states h)" "t \<in> set (trans_of h p)" "dest t = x"
    unfolding trie_def by blast
  with tr have "P x = P p @ [ch t]" unfolding trie_def by blast
  with x have "P p = P s" "ch t = c" by auto
  with tr pt s have "p = s" unfolding trie_def inj_on_def by auto
  with pt \<open>ch t = c\<close> nf show False by auto
qed

lemma trie_add_state:
  assumes tr: "trie h P" and s: "s < length (states h)"
    and nf: "c \<notin> ch ` set (trans_of h s)"
    and h2: "h2 = h\<lparr>states := (states h @ [newState])
               [s := (states h ! s)\<lparr>transitions := trans_of h s @ [\<lparr>ch = c, dest = length (states h)\<rparr>]\<rparr>]\<rparr>"
  shows "trie h2 (P(length (states h) := P s @ [c]))"
proof -
  let ?n = "length (states h)"
  let ?P = "P(?n := P s @ [c])"
  have len: "length (states h2) = Suc ?n" by (simp add: h2)
  have tr_s: "trans_of h2 s = trans_of h s @ [\<lparr>ch = c, dest = ?n\<rparr>]"
    using s by (simp add: h2 trans_of_def nth_append)
  have tr_n: "trans_of h2 ?n = []"
    using s by (simp add: h2 trans_of_def nth_append newState_def)
  have tr_o: "\<And>a. a < ?n \<Longrightarrow> a \<noteq> s \<Longrightarrow> trans_of h2 a = trans_of h a"
    using s by (simp add: h2 trans_of_def nth_append)
  have T3: "\<forall>a < length (states h2). \<forall>t \<in> set (trans_of h2 a).
        dest t < length (states h2) \<and> ?P (dest t) = ?P a @ [ch t]"
  proof (intro allI impI ballI)
    fix a t assume a: "a < length (states h2)" and t: "t \<in> set (trans_of h2 a)"
    show "dest t < length (states h2) \<and> ?P (dest t) = ?P a @ [ch t]"
    proof (cases "a = ?n")
      case True with t tr_n show ?thesis by simp
    next
      case False
      with a len have an: "a < ?n" by simp
      show ?thesis
      proof (cases "t \<in> set (trans_of h a)")
        case True
        with tr an have "dest t < ?n" "P (dest t) = P a @ [ch t]" unfolding trie_def by blast+
        with an len show ?thesis by simp
      next
        case False
        have as: "a = s"
        proof (rule ccontr)
          assume "a \<noteq> s"
          with tr_o[OF an] t False show False by simp
        qed
        with t tr_s False have "t = \<lparr>ch = c, dest = ?n\<rparr>" by simp
        with as s len show ?thesis by simp
      qed
    qed
  qed
  have T4: "\<forall>a < length (states h2). distinct (map ch (trans_of h2 a))"
  proof (intro allI impI)
    fix a assume a: "a < length (states h2)"
    show "distinct (map ch (trans_of h2 a))"
    proof (cases "a = ?n")
      case True with tr_n show ?thesis by simp
    next
      case False
      with a len have an: "a < ?n" by simp
      with tr have d: "distinct (map ch (trans_of h a))" unfolding trie_def by blast
      show ?thesis
      proof (cases "a = s")
        case True with d nf tr_s show ?thesis by simp
      next
        case False with d tr_o[OF an] show ?thesis by simp
      qed
    qed
  qed
  have T5: "inj_on ?P {..<length (states h2)}"
  proof -
    have "inj_on P {..<?n}" using tr unfolding trie_def by blast
    moreover have "P s @ [c] \<notin> P ` {..<?n}" by (rule trie_new_path[OF tr s nf])
    ultimately have "inj_on ?P {..<?n}" by (rule inj_on_fun_updI)
    moreover have "?P ` ({..<?n} - {?n}) = P ` {..<?n}" by auto
    ultimately have "inj_on ?P (insert ?n {..<?n})"
      using \<open>P s @ [c] \<notin> P ` {..<?n}\<close> by (simp only: inj_on_insert fun_upd_same) simp
    moreover have "insert ?n {..<?n} = {..<Suc ?n}" by auto
    ultimately show ?thesis by (simp add: len)
  qed
  have T6: "\<forall>a < length (states h2). a \<noteq> 0 \<longrightarrow>
        (\<exists>p < length (states h2). \<exists>t \<in> set (trans_of h2 p). dest t = a)"
  proof (intro allI impI)
    fix a assume a: "a < length (states h2)" and a0: "a \<noteq> 0"
    show "\<exists>p < length (states h2). \<exists>t \<in> set (trans_of h2 p). dest t = a"
    proof (cases "a = ?n")
      case True
      have "\<lparr>ch = c, dest = ?n\<rparr> \<in> set (trans_of h2 s)" by (simp add: tr_s)
      then have "\<exists>t \<in> set (trans_of h2 s). dest t = a" using True by force
      with s len show ?thesis by (intro exI[of _ s]) simp
    next
      case False
      with a len have an: "a < ?n" by simp
      with tr a0 obtain p t where pt: "p < ?n" "t \<in> set (trans_of h p)" "dest t = a"
        unfolding trie_def by blast
      have "t \<in> set (trans_of h2 p)"
        using pt tr_s tr_o[of p] by (cases "p = s") auto
      then have "\<exists>t \<in> set (trans_of h2 p). dest t = a" using pt by blast
      with pt len show ?thesis by (intro exI[of _ p]) simp
    qed
  qed
  from tr have "0 < ?n" "P 0 = []" unfolding trie_def by auto
  then have "0 < length (states h2)" "?P 0 = []" by (auto simp: len)
  with T3 T4 T5 T6 show ?thesis unfolding trie_def by blast
qed

lemma grows_add_state:
  assumes s: "s < length (states h)"
    and h2: "h2 = h\<lparr>states := (states h @ [newState])
               [s := (states h ! s)\<lparr>transitions := ts\<rparr>]\<rparr>"
  shows "grows h h2"
  using s unfolding grows_def h2
  by (auto simp: fb_def res_def rb_def nth_append nth_list_update newState_def)

lemma walk_step_None:
  assumes s: "s < length (states h)" and nf: "findTransition (states h ! s) c = None"
  shows "extendForest_walk h s (c # w) =
     extendForest_walk (h\<lparr>states := (states h @ [newState])
               [s := (states h ! s)\<lparr>transitions := trans_of h s @ [\<lparr>ch = c, dest = length (states h)\<rparr>]\<rparr>]\<rparr>)
       (length (states h)) w"
  using s nf by (simp add: getState_def allocState_def putState_def trans_of_def)

lemma extendForest_walk_inv:
  "trie h P \<Longrightarrow> s < length (states h) \<Longrightarrow>
   \<exists>h' s' P'. extendForest_walk h s w = Some (h', s') \<and> trie h' P' \<and>
      s' < length (states h') \<and> P' s' = P s @ w \<and>
      (\<forall>a < length (states h). P' a = P a) \<and> grows h h'"
proof (induction w arbitrary: h s P)
  case Nil
  then show ?case by (auto intro: grows_refl)
next
  case (Cons c w)
  let ?n = "length (states h)"
  show ?case
  proof (cases "findTransition (states h ! s) c")
    case (Some t)
    then have t: "t \<in> set (trans_of h s)" "ch t = c"
      using findTransition_Some by (auto simp: trans_of_def)
    with Cons.prems have d: "dest t < ?n" "P (dest t) = P s @ [c]"
      unfolding trie_def by blast+
    from Cons.IH[OF Cons.prems(1) d(1), of ] obtain h' s' P' where
      r: "extendForest_walk h (dest t) w = Some (h', s')" "trie h' P'"
         "s' < length (states h')" "P' s' = P (dest t) @ w"
         "\<forall>a < ?n. P' a = P a" "grows h h'" by blast
    have "extendForest_walk h s (c # w) = Some (h', s')"
      using Cons.prems(2) Some r(1) by (simp add: getState_def)
    with r d show ?thesis by auto
  next
    case None
    define h2 where "h2 = h\<lparr>states := (states h @ [newState])
               [s := (states h ! s)\<lparr>transitions := trans_of h s @ [\<lparr>ch = c, dest = ?n\<rparr>]\<rparr>]\<rparr>"
    have nf: "c \<notin> ch ` set (trans_of h s)"
      using None by (simp add: findTransition_None trans_of_def)
    have tr2: "trie h2 (P(?n := P s @ [c]))"
      by (rule trie_add_state[OF Cons.prems(1,2) nf h2_def])
    have len2: "length (states h2) = Suc ?n" by (simp add: h2_def)
    have g2: "grows h h2" by (rule grows_add_state[OF Cons.prems(2) h2_def])
    from Cons.IH[OF tr2, of ?n] len2 obtain h' s' P' where
      r: "extendForest_walk h2 ?n w = Some (h', s')" "trie h' P'"
         "s' < length (states h')" "P' s' = (P(?n := P s @ [c])) ?n @ w"
         "\<forall>a < length (states h2). P' a = (P(?n := P s @ [c])) a" "grows h2 h'" by auto
    have "extendForest_walk h s (c # w) = Some (h', s')"
      using walk_step_None[OF Cons.prems(2) None] r(1) by (simp add: h2_def)
    moreover have "\<forall>a < ?n. P' a = P a" using r(5) len2 by auto
    moreover have "grows h h'" using g2 r(6) by (rule grows_trans)
    ultimately show ?thesis using r by auto
  qed
qed

subsection \<open>Result lists in memory\<close>

text \<open>Segments of result records, and what \<open>addResult\<close> changes.\<close>

lemma seg_frame:
  "seg h p ks q \<Longrightarrow>
   (\<And>k. k \<in> set ks \<Longrightarrow> k < length (rnodes h') \<and> next_r (rnodes h' ! k) = next_r (rnodes h ! k)) \<Longrightarrow>
   seg h' p ks q"
  by (induction ks arbitrary: p) auto

lemma seg_bound: "seg h p ks q \<Longrightarrow> k \<in> set ks \<Longrightarrow> k < length (rnodes h)"
  by (induction ks arbitrary: p) auto

lemma seg_append:
  "seg h p (ks @ ks') q \<longleftrightarrow> (\<exists>m. seg h p ks m \<and> seg h m ks' q)"
  by (induction ks arbitrary: p) auto

lemma seg_last_update:
  assumes "seg h p ks q" "ks \<noteq> []" "distinct ks"
    and "length (rnodes h) \<le> length (rnodes h')"
    and "\<And>k. k < length (rnodes h) \<Longrightarrow> next_r (rnodes h' ! k) =
           (if k = last ks then v else next_r (rnodes h ! k))"
  shows "seg h' p ks v"
  using assms
proof (induction ks arbitrary: p)
  case Nil
  then show ?case by simp
next
  case (Cons k ks)
  show ?case
  proof (cases "ks = []")
    case True
    with Cons.prems show ?thesis by auto
  next
    case False
    with Cons.prems have kl: "k \<noteq> last ks" by auto
    from Cons.prems have 1: "p = Some k" "k < length (rnodes h)"
      "seg h (next_r (rnodes h ! k)) ks q" by auto
    have "seg h' (next_r (rnodes h ! k)) ks v"
      using Cons.IH[OF 1(3) False] Cons.prems False by simp
    moreover have "next_r (rnodes h' ! k) = next_r (rnodes h ! k)"
      using Cons.prems(5)[OF 1(2)] kl False by simp
    ultimately show ?thesis using 1 Cons.prems(4) by simp
  qed
qed

lemma addResult_effect:
  assumes s: "s < length (states h)"
    and k: "\<And>k. rb h s = NextOf k \<Longrightarrow> k < length (rnodes h)"
  shows "\<exists>h2. addResult h s idx len = Some h2 \<and>
      length (states h2) = length (states h) \<and>
      (\<forall>a. trans_of h2 a = trans_of h a) \<and> (\<forall>a. fb h2 a = fb h a) \<and>
      (\<forall>a. a \<noteq> s \<longrightarrow> rb h2 a = rb h a) \<and> rb h2 s = NextOf (length (rnodes h)) \<and>
      (\<forall>a. res h2 a = (if a = s \<and> rb h s = OwnResults then Some (length (rnodes h)) else res h a)) \<and>
      length (rnodes h2) = Suc (length (rnodes h)) \<and>
      rnodes h2 ! length (rnodes h) = \<lparr>pat_idx = idx, length_r = len, next_r = None\<rparr> \<and>
      (\<forall>k < length (rnodes h). rnodes h2 ! k =
          (if rb h s = NextOf k then (rnodes h ! k)\<lparr>next_r := Some (length (rnodes h))\<rparr>
           else rnodes h ! k))"
proof (cases "rb h s")
  case OwnResults
  then show ?thesis using s
    by (auto simp: addResult_def allocResult_def storeBack_def getState_def putState_def
        rb_def res_def fb_def trans_of_def nth_list_update nth_append)
next
  case (NextOf k0)
  with k have "k0 < length (rnodes h)" by simp
  with NextOf show ?thesis using s
    by (auto simp: addResult_def allocResult_def storeBack_def getState_def putState_def
        getResult_def putResult_def
        rb_def res_def fb_def trans_of_def nth_list_update nth_append)
qed

lemma trie_cong:
  "trie h P \<Longrightarrow> length (states h') = length (states h) \<Longrightarrow>
   (\<And>a. a < length (states h) \<Longrightarrow> trans_of h' a = trans_of h a) \<Longrightarrow> trie h' P"
  unfolding trie_def by (simp cong: conj_cong)

lemma forest_inv_grows:
  assumes inv: "forest_inv h P KS ws" and tr: "trie h1 P1" and g: "grows h h1"
    and P1: "\<forall>a < length (states h). P1 a = P a"
  shows "forest_inv h1 P1 KS ws"
proof -
  let ?n = "length (states h)" and ?n1 = "length (states h1)"
  from g have n: "?n \<le> ?n1" and rn: "rnodes h1 = rnodes h"
    and old: "\<And>a. a < ?n \<Longrightarrow> fb h1 a = fb h a \<and> res h1 a = res h a \<and> rb h1 a = rb h a"
    and new: "\<And>a. ?n \<le> a \<Longrightarrow> a < ?n1 \<Longrightarrow> fb h1 a = None \<and> res h1 a = None \<and> rb h1 a = OwnResults"
    by (auto simp: grows_def)
  from inv have ol: "own_lists h KS" and cl: "closed h KS" and ct: "content h P KS ws"
    and fbn: "\<And>a. a < ?n \<Longrightarrow> fb h a = None"
    by (auto simp: forest_inv_def)
  have KSnew: "\<And>a. ?n \<le> a \<Longrightarrow> KS a = []" using ol by (simp add: own_lists_def)
  have fb1: "\<And>a. a < ?n1 \<Longrightarrow> fb h1 a = None"
  proof -
    fix a assume "a < ?n1" 
    then show "fb h1 a = None" using old[of a] new[of a] fbn[of a] by (cases "a < ?n") auto
  qed
  have ol1: "own_lists h1 KS"
    unfolding own_lists_def
  proof (intro conjI allI impI)
    fix a show "distinct (KS a)" using ol by (simp add: own_lists_def)
    show "set (KS a) \<subseteq> {..<length (rnodes h1)}" using ol rn by (simp add: own_lists_def)
  next
    fix a assume "?n1 \<le> a" then show "KS a = []" using KSnew n by simp
  next
    fix a assume a: "a < ?n1"
    show "rb h1 a = (if KS a = [] then OwnResults else NextOf (last (KS a)))"
    proof (cases "a < ?n")
      case True
      then show ?thesis using old[of a] ol by (simp add: own_lists_def)
    next
      case False
      then show ?thesis using new[of a] a KSnew[of a] by simp
    qed
  next
    fix a b :: nat assume "a \<noteq> b"
    then show "set (KS a) \<inter> set (KS b) = {}" using ol by (simp add: own_lists_def)
  qed
  have cl1: "closed h1 KS"
    unfolding closed_def
  proof (intro allI impI)
    fix a assume a: "a < ?n1"
    show "seg h1 (res h1 a) (KS a) (case fb h1 a of None \<Rightarrow> None | Some f \<Rightarrow> res h1 f)"
    proof (cases "a < ?n")
      case True
      from cl True have "seg h (res h a) (KS a) (case fb h a of None \<Rightarrow> None | Some f \<Rightarrow> res h f)"
        unfolding closed_def by blast
      with fbn[OF True] have "seg h (res h a) (KS a) None" by simp
      then have "seg h1 (res h a) (KS a) None"
      proof (rule seg_frame)
        fix k assume "k \<in> set (KS a)"
        with \<open>seg h (res h a) (KS a) None\<close> have "k < length (rnodes h)" by (rule seg_bound)
        then show "k < length (rnodes h1) \<and> next_r (rnodes h1 ! k) = next_r (rnodes h ! k)"
          by (simp add: rn)
      qed
      then show ?thesis using fb1[OF a] old[OF True] by simp
    next
      case False
      then show ?thesis using new[of a] a KSnew[of a] by simp
    qed
  qed
  have pw: "paths h P \<subseteq> paths h1 P1"
  proof
    fix x assume "x \<in> paths h P"
    then obtain b where b: "b < ?n" "x = P b" by (auto simp: paths_def)
    with P1 have "x = P1 b" by simp
    moreover have "b < ?n1" using b n by simp
    ultimately show "x \<in> paths h1 P1" by (auto simp: paths_def)
  qed
  have inj1: "inj_on P1 {..<?n1}" using tr by (simp add: trie_def)
  have ct1: "content h1 P1 KS ws"
    unfolding content_def
  proof (intro conjI allI impI)
    fix j assume "j < length ws"
    with ct pw show "ws ! j \<in> paths h1 P1" by (auto simp: content_def)
  next
    fix a assume a: "a < ?n1"
    show "map (\<lambda>k. rec_of (rnodes h1 ! k)) (KS a) =
        map (\<lambda>j. (j, length (ws ! j))) (filter (\<lambda>j. ws ! j = P1 a) [0..<length ws])"
    proof (cases "a < ?n")
      case True
      then show ?thesis using ct P1 rn by (simp add: content_def)
    next
      case False
      have "\<And>j. j < length ws \<Longrightarrow> ws ! j \<noteq> P1 a"
      proof
        fix j assume j: "j < length ws" and e: "ws ! j = P1 a"
        from ct j obtain b where b: "b < ?n" "ws ! j = P b" by (auto simp: content_def paths_def)
        with P1 e have "P1 b = P1 a" by simp
        with inj1 a b n have "a = b" by (auto simp: inj_on_def)
        with False b show False by simp
      qed
      then have "filter (\<lambda>j. ws ! j = P1 a) [0..<length ws] = []"
        by (auto simp: filter_empty_conv)
      then show ?thesis using KSnew[of a] False by simp
    qed
  qed
  show ?thesis unfolding forest_inv_def using tr ol1 cl1 ct1 fb1 by simp
qed

subsection \<open>Adding a string\<close>

text \<open>\<open>extendForest\<close> keeps the invariant of the forest and records the new string.\<close>

lemma forest_inv_addResult:
  assumes inv: "forest_inv h P KS ws" and s: "s < length (states h)" and Ps: "P s = w"
    and len: "length (states h2) = length (states h)"
    and tr: "\<forall>a. trans_of h2 a = trans_of h a" and fbe: "\<forall>a. fb h2 a = fb h a"
    and rbo: "\<forall>a. a \<noteq> s \<longrightarrow> rb h2 a = rb h a" and rbs: "rb h2 s = NextOf (length (rnodes h))"
    and rese: "\<forall>a. res h2 a = (if a = s \<and> rb h s = OwnResults then Some (length (rnodes h)) else res h a)"
    and rlen: "length (rnodes h2) = Suc (length (rnodes h))"
    and rnew: "rnodes h2 ! length (rnodes h) = \<lparr>pat_idx = length ws, length_r = length w, next_r = None\<rparr>"
    and rold: "\<forall>k < length (rnodes h). rnodes h2 ! k =
          (if rb h s = NextOf k then (rnodes h ! k)\<lparr>next_r := Some (length (rnodes h))\<rparr>
           else rnodes h ! k)"
  shows "forest_inv h2 P (KS(s := KS s @ [length (rnodes h)])) (ws @ [w])"
proof -
  let ?n = "length (states h)" and ?nr = "length (rnodes h)"
  let ?KS = "KS(s := KS s @ [?nr])"
  from inv have trie: "trie h P" and ol: "own_lists h KS" and cl: "closed h KS"
    and ct: "content h P KS ws" and fbn: "\<And>a. a < ?n \<Longrightarrow> fb h a = None"
    by (auto simp: forest_inv_def)
  have dist: "\<And>a. distinct (KS a)" and bnd: "\<And>a. set (KS a) \<subseteq> {..<?nr}"
    and KSnew: "\<And>a. ?n \<le> a \<Longrightarrow> KS a = []"
    and rbh: "\<And>a. a < ?n \<Longrightarrow> rb h a = (if KS a = [] then OwnResults else NextOf (last (KS a)))"
    and disj: "\<And>a b. a \<noteq> b \<Longrightarrow> set (KS a) \<inter> set (KS b) = {}"
    using ol by (auto simp: own_lists_def)
  have nr_notin: "\<And>a. ?nr \<notin> set (KS a)" using bnd by auto
  have trie2: "trie h2 P" using trie len tr by (auto intro: trie_cong)
  have fb2: "\<And>a. a < length (states h2) \<Longrightarrow> fb h2 a = None" using fbe fbn len by simp
  have ol2: "own_lists h2 ?KS"
    unfolding own_lists_def
  proof (intro conjI allI impI)
    fix a show "distinct (?KS a)" using dist[of a] dist[of s] nr_notin[of s] by simp
    show "set (?KS a) \<subseteq> {..<length (rnodes h2)}" using bnd[of a] rlen by auto
  next
    fix a assume "length (states h2) \<le> a"
    then show "?KS a = []" using KSnew[of a] s len by simp
  next
    fix a assume a: "a < length (states h2)"
    show "rb h2 a = (if ?KS a = [] then OwnResults else NextOf (last (?KS a)))"
      using rbs rbo rbh[of a] a len by simp
  next
    fix a b :: nat assume "a \<noteq> b"
    then show "set (?KS a) \<inter> set (?KS b) = {}"
      using disj[of a b] nr_notin[of a] nr_notin[of b] by auto
  qed
  have last_s: "KS s \<noteq> [] \<Longrightarrow> rb h s = NextOf (last (KS s))" using rbh[OF s] by simp
  have own_s: "KS s = [] \<Longrightarrow> rb h s = OwnResults" using rbh[OF s] by simp
  have node_other: "\<And>k. k < ?nr \<Longrightarrow> (KS s = [] \<or> k \<noteq> last (KS s)) \<Longrightarrow> rnodes h2 ! k = rnodes h ! k"
  proof -
    fix k assume k: "k < ?nr" and d: "KS s = [] \<or> k \<noteq> last (KS s)"
    have "rb h s \<noteq> NextOf k"
    proof (cases "KS s = []")
      case True with own_s show ?thesis by simp
    next
      case False with last_s d show ?thesis by simp
    qed
    with rold k show "rnodes h2 ! k = rnodes h ! k" by simp
  qed
  have segs: "\<And>a. a < ?n \<Longrightarrow> seg h (res h a) (KS a) None"
  proof -
    fix a assume a: "a < ?n"
    with cl have "seg h (res h a) (KS a) (case fb h a of None \<Rightarrow> None | Some f \<Rightarrow> res h f)"
      unfolding closed_def by blast
    with fbn[OF a] show "seg h (res h a) (KS a) None" by simp
  qed
  have cl2: "closed h2 ?KS"
    unfolding closed_def
  proof (intro allI impI)
    fix a assume a2: "a < length (states h2)"
    then have a: "a < ?n" using len by simp
    have goal: "seg h2 (res h2 a) (?KS a) None"
    proof (cases "a = s")
      case False
      have "seg h2 (res h a) (KS a) None"
        using segs[OF a]
      proof (rule seg_frame)
        fix k assume k: "k \<in> set (KS a)"
        then have kl: "k < ?nr" using bnd[of a] by auto
        have "KS s = [] \<or> k \<noteq> last (KS s)"
        proof (cases "KS s = []")
          case True then show ?thesis by simp
        next
          case False
          then have "last (KS s) \<in> set (KS s)" by simp
          with disj[OF \<open>a \<noteq> s\<close>] k show ?thesis by auto
        qed
        with node_other[OF kl] kl rlen
        show "k < length (rnodes h2) \<and> next_r (rnodes h2 ! k) = next_r (rnodes h ! k)" by simp
      qed
      then show ?thesis using False rese by simp
    next
      case True
      have tail: "seg h2 (Some ?nr) [?nr] None" using rlen rnew by simp
      show ?thesis
      proof (cases "KS s = []")
        case e: True
        with segs[OF s] have "res h s = None" by simp
        with e own_s rese True tail show ?thesis by simp
      next
        case ne: False
        have "seg h2 (res h s) (KS s) (Some ?nr)"
        proof (rule seg_last_update[OF segs[OF s] ne dist])
          show "length (rnodes h) \<le> length (rnodes h2)" using rlen by simp
        next
          fix k assume k: "k < ?nr"
          show "next_r (rnodes h2 ! k) = (if k = last (KS s) then Some ?nr else next_r (rnodes h ! k))"
            using rold k last_s[OF ne] by auto
        qed
        then have "seg h2 (res h s) (KS s @ [?nr]) None"
          using tail by (auto simp: seg_append)
        moreover have "res h2 s = res h s" using rese last_s[OF ne] by simp
        ultimately show ?thesis using True by simp
      qed
    qed
    show "seg h2 (res h2 a) (?KS a) (case fb h2 a of None \<Rightarrow> None | Some f \<Rightarrow> res h2 f)"
      using goal fb2[OF a2] by simp
  qed
  have ct2: "content h2 P ?KS (ws @ [w])"
    unfolding content_def
  proof (intro conjI allI impI)
    fix j assume j: "j < length (ws @ [w])"
    show "(ws @ [w]) ! j \<in> paths h2 P"
    proof (cases "j < length ws")
      case True
      with ct have "ws ! j \<in> paths h P" by (simp add: content_def)
      with True len show ?thesis by (simp add: paths_def nth_append)
    next
      case False
      with j have "(ws @ [w]) ! j = w" by (simp add: nth_append)
      with Ps s len show ?thesis by (auto simp: paths_def)
    qed
  next
    fix a assume a2: "a < length (states h2)"
    then have a: "a < ?n" using len by simp
    have recs: "\<And>k. k < ?nr \<Longrightarrow> rec_of (rnodes h2 ! k) = rec_of (rnodes h ! k)"
      using rold by (simp add: rec_of_def)
    have old: "map (\<lambda>k. rec_of (rnodes h2 ! k)) (KS a) =
        map (\<lambda>j. (j, length (ws ! j))) (filter (\<lambda>j. ws ! j = P a) [0..<length ws])"
    proof -
      have "map (\<lambda>k. rec_of (rnodes h2 ! k)) (KS a) = map (\<lambda>k. rec_of (rnodes h ! k)) (KS a)"
        using bnd[of a] recs by (intro map_cong) auto
      with ct a show ?thesis by (simp add: content_def)
    qed
    have f1: "filter (\<lambda>j. (ws @ [w]) ! j = P a) [0..<length ws] = filter (\<lambda>j. ws ! j = P a) [0..<length ws]"
      by (intro filter_cong) (auto simp: nth_append)
    have m1: "\<And>js. set js \<subseteq> {..<length ws} \<Longrightarrow>
        map (\<lambda>j. (j, length ((ws @ [w]) ! j))) js = map (\<lambda>j. (j, length (ws ! j))) js"
      by (intro map_cong) (auto simp: nth_append)
    have m2: "map (\<lambda>j. (j, length ((ws @ [w]) ! j))) (filter (\<lambda>j. ws ! j = P a) [0..<length ws])
        = map (\<lambda>j. (j, length (ws ! j))) (filter (\<lambda>j. ws ! j = P a) [0..<length ws])"
      by (rule m1) auto
    have inj: "inj_on P {..<?n}" using trie by (simp add: trie_def)
    have eq: "P a = w \<longleftrightarrow> a = s" using inj a s Ps by (auto simp: inj_on_def)
    show "map (\<lambda>k. rec_of (rnodes h2 ! k)) (?KS a) =
        map (\<lambda>j. (j, length ((ws @ [w]) ! j))) (filter (\<lambda>j. (ws @ [w]) ! j = P a) [0..<length (ws @ [w])])"
    proof (cases "a = s")
      case True
      then show ?thesis using old f1 m2 eq rnew by (simp add: rec_of_def)
    next
      case False
      then show ?thesis using old f1 m2 eq by simp
    qed
  qed
  show ?thesis unfolding forest_inv_def using trie2 ol2 cl2 ct2 fb2 by simp
qed

lemma extendForest_inv:
  assumes inv: "forest_inv h P KS ws"
  shows "\<exists>h' P' KS'. extendForest h 0 w (length ws) = Some h' \<and> forest_inv h' P' KS' (ws @ [w])"
proof -
  from inv have tr: "trie h P" by (simp add: forest_inv_def)
  then have r0: "0 < length (states h)" and P0: "P 0 = []" by (auto simp: trie_def)
  from extendForest_walk_inv[OF tr r0, of w] obtain h1 s1 P1 where
    w: "extendForest_walk h 0 w = Some (h1, s1)" "trie h1 P1" "s1 < length (states h1)"
       "P1 s1 = P 0 @ w" "\<forall>a < length (states h). P1 a = P a" "grows h h1" by blast
  have inv1: "forest_inv h1 P1 KS ws" by (rule forest_inv_grows[OF inv w(2) w(6) w(5)])
  then have ol: "own_lists h1 KS" by (simp add: forest_inv_def)
  have "\<And>k. rb h1 s1 = NextOf k \<Longrightarrow> k < length (rnodes h1)"
  proof -
    fix k assume k: "rb h1 s1 = NextOf k"
    from ol w(3) have "rb h1 s1 = (if KS s1 = [] then OwnResults else NextOf (last (KS s1)))"
      and "set (KS s1) \<subseteq> {..<length (rnodes h1)}" by (auto simp: own_lists_def)
    with k have "KS s1 \<noteq> []" "k = last (KS s1)" by (auto split: if_splits)
    then have "k \<in> set (KS s1)" by simp
    with \<open>set (KS s1) \<subseteq> {..<length (rnodes h1)}\<close> show "k < length (rnodes h1)" by auto
  qed
  from addResult_effect[OF w(3) this, of "length ws" "length w"] obtain h2 where
    h2: "addResult h1 s1 (length ws) (length w) = Some h2"
      "length (states h2) = length (states h1)"
      "\<forall>a. trans_of h2 a = trans_of h1 a" "\<forall>a. fb h2 a = fb h1 a"
      "\<forall>a. a \<noteq> s1 \<longrightarrow> rb h2 a = rb h1 a" "rb h2 s1 = NextOf (length (rnodes h1))"
      "\<forall>a. res h2 a = (if a = s1 \<and> rb h1 s1 = OwnResults then Some (length (rnodes h1)) else res h1 a)"
      "length (rnodes h2) = Suc (length (rnodes h1))"
      "rnodes h2 ! length (rnodes h1) = \<lparr>pat_idx = length ws, length_r = length w, next_r = None\<rparr>"
      "\<forall>k < length (rnodes h1). rnodes h2 ! k =
          (if rb h1 s1 = NextOf k then (rnodes h1 ! k)\<lparr>next_r := Some (length (rnodes h1))\<rparr>
           else rnodes h1 ! k)" by blast
  have Ps: "P1 s1 = w" using w(4) P0 by simp
  have "forest_inv h2 P1 (KS(s1 := KS s1 @ [length (rnodes h1)])) (ws @ [w])"
    by (rule forest_inv_addResult[OF inv1 w(3) Ps h2(2-10)])
  moreover have "extendForest h 0 w (length ws) = Some h2"
    using w(1) h2(1) by (simp add: extendForest_def)
  ultimately show ?thesis by blast
qed

subsection \<open>The trie of a pattern\<close>

text \<open>\<open>buildForestFromPattern\<close> always returns, and its trie holds the inserted strings.\<close>

lemma forest_inv_init:
  "forest_inv \<lparr>states = [newState], rnodes = []\<rparr> (\<lambda>_. []) (\<lambda>_. []) []"
  unfolding forest_inv_def trie_def own_lists_def closed_def content_def
  by (simp add: trans_of_def fb_def res_def rb_def newState_def inj_on_def)

lemma insertParts_inv:
  "forest_inv h P KS ws \<Longrightarrow> i = length ws \<Longrightarrow>
   \<exists>h' P' KS'. insertParts h 0 ps i = Some h' \<and> forest_inv h' P' KS' (ws @ map chars ps)"
proof (induction ps arbitrary: h P KS ws i)
  case Nil
  then show ?case by auto
next
  case (Cons p ps)
  from extendForest_inv[OF Cons.prems(1), of "chars p"] obtain h1 P1 KS1 where
    1: "extendForest h 0 (chars p) (length ws) = Some h1" "forest_inv h1 P1 KS1 (ws @ [chars p])"
    by blast
  from Cons.IH[OF 1(2), of "i + 1"] Cons.prems(2) obtain h' P' KS' where
    2: "insertParts h1 0 ps (i + 1) = Some h'" "forest_inv h' P' KS' ((ws @ [chars p]) @ map chars ps)"
    by auto
  from 1 2 Cons.prems(2) show ?case by auto
qed

lemma insertComplements_inv:
  "forest_inv h P KS ws \<Longrightarrow> n + i = length ws \<Longrightarrow>
   \<exists>h' P' KS'. insertComplements h 0 cl n i = Some h' \<and>
      forest_inv h' P' KS' (ws @ map (\<lambda>c. [ch_c c]) cl)"
proof (induction cl arbitrary: h P KS ws i)
  case Nil
  then show ?case by auto
next
  case (Cons c cl)
  from extendForest_inv[OF Cons.prems(1), of "[ch_c c]"] obtain h1 P1 KS1 where
    1: "extendForest h 0 [ch_c c] (length ws) = Some h1" "forest_inv h1 P1 KS1 (ws @ [[ch_c c]])"
    by blast
  from Cons.IH[OF 1(2), of "i + 1"] Cons.prems(2) obtain h' P' KS' where
    2: "insertComplements h1 0 cl n (i + 1) = Some h'"
       "forest_inv h' P' KS' ((ws @ [[ch_c c]]) @ map (\<lambda>c. [ch_c c]) cl)"
    by auto
  from 1 2 Cons.prems(2) show ?case by auto
qed

lemma buildForest_inv:
  "\<exists>h P KS. buildForestFromPattern pat = Some (h, 0) \<and> forest_inv h P KS (inserted pat)"
proof -
  let ?h0 = "\<lparr>states = [newState], rnodes = []\<rparr>"
  from insertParts_inv[OF forest_inv_init, of 0 "parts pat"] obtain h1 P1 KS1 where
    1: "insertParts ?h0 0 (parts pat) 0 = Some h1" "forest_inv h1 P1 KS1 (map chars (parts pat))"
    by auto
  from insertComplements_inv[OF 1(2), of "length (parts pat)" 0 "complement pat"]
  obtain h2 P2 KS2 where
    2: "insertComplements h1 0 (complement pat) (length (parts pat)) 0 = Some h2"
       "forest_inv h2 P2 KS2 (inserted pat)"
    by (auto simp: inserted_def)
  have "buildForestFromPattern pat = Some (h2, 0)"
    using 1(1) 2(1) by (simp add: buildForestFromPattern_def allocState_def emptyHeap_def)
  with 2(2) show ?thesis by blast
qed

subsection \<open>Suffixes\<close>

text \<open>Longest suffixes in a prefix-closed set of strings.\<close>

lemma suffix_snoc_cases:
  "suffix v (w @ [c]) \<longleftrightarrow> v = [] \<or> (\<exists>v'. v = v' @ [c] \<and> suffix v' w)"
  by (cases v rule: rev_cases) auto

lemma strict_suffix_snoc_cases:
  "strict_suffix v (w @ [c]) \<longleftrightarrow> v = [] \<or> (\<exists>v'. v = v' @ [c] \<and> strict_suffix v' w)"
  by (cases v rule: rev_cases) (auto simp: strict_suffix_def)

lemma lps_of_suffix:
  assumes "lps_of W w u" "strict_suffix v w" "v \<in> W"
  shows "suffix v u"
proof -
  from assms have "length v \<le> length u" "suffix u w" "suffix v w"
    by (auto simp: lps_of_def strict_suffix_def)
  then show ?thesis using suffix_length_suffix by blast
qed

lemma ls_of_suffix:
  assumes "ls_of W w u" "suffix v w" "v \<in> W"
  shows "suffix v u"
proof -
  from assms have "length v \<le> length u" "suffix u w" "suffix v w"
    by (auto simp: ls_of_def)
  then show ?thesis using suffix_length_suffix by blast
qed

lemma ls_of_snoc:
  assumes pc: "prefix_closed W" and ls: "ls_of W T w" and ex: "ext_of W w c u"
  shows "ls_of W (T @ [c]) (u @ [c])"
  unfolding ls_of_def
proof (intro conjI allI impI)
  from ls ex have "suffix u T" by (auto simp: ls_of_def ext_of_def intro: suffix_order.trans)
  then show "suffix (u @ [c]) (T @ [c])" by simp
  from ex show "u @ [c] \<in> W" by (simp add: ext_of_def)
next
  fix v assume v: "suffix v (T @ [c]) \<and> v \<in> W"
  show "length v \<le> length (u @ [c])"
  proof (cases "v = []")
    case True then show ?thesis by simp
  next
    case False
    with v obtain v' where v': "v = v' @ [c]" "suffix v' T" by (auto simp: suffix_snoc_cases)
    with v pc have "v' \<in> W" by (auto simp: prefix_closed_def)
    with ls v' have "suffix v' w" by (auto intro: ls_of_suffix)
    with ex v v' have "length v' \<le> length u" by (auto simp: ext_of_def)
    with v' show ?thesis by simp
  qed
qed

lemma ls_of_snoc_none:
  assumes pc: "prefix_closed W" and ls: "ls_of W T w" and ex: "no_ext W w c"
  shows "ls_of W (T @ [c]) []"
  unfolding ls_of_def
proof (intro conjI allI impI)
  show "suffix [] (T @ [c])" by simp
  from pc show "[] \<in> W" by (simp add: prefix_closed_def)
next
  fix v assume v: "suffix v (T @ [c]) \<and> v \<in> W"
  show "length v \<le> length ([]::string)"
  proof (cases "v = []")
    case True then show ?thesis by simp
  next
    case False
    with v obtain v' where v': "v = v' @ [c]" "suffix v' T" by (auto simp: suffix_snoc_cases)
    with v pc have "v' \<in> W" by (auto simp: prefix_closed_def)
    with ls v' have "suffix v' w" by (auto intro: ls_of_suffix)
    with ex v v' show ?thesis by (auto simp: no_ext_def)
  qed
qed

lemma lps_of_snoc:
  assumes pc: "prefix_closed W" and lp: "lps_of W w x" and ex: "ext_of W x c u"
  shows "lps_of W (w @ [c]) (u @ [c])"
  unfolding lps_of_def
proof (intro conjI allI impI)
  from lp ex have "suffix u x" "strict_suffix x w"
    by (auto simp: lps_of_def ext_of_def)
  then have "suffix u w" "length u \<le> length x" "length x < length w"
    by (auto simp: strict_suffix_def suffix_length_le suffix_length_less
        intro: suffix_order.trans)
  then have "strict_suffix u w" by (auto simp: strict_suffix_def)
  then show "strict_suffix (u @ [c]) (w @ [c])" by (simp add: strict_suffix_snoc_cases)
  from ex show "u @ [c] \<in> W" by (simp add: ext_of_def)
next
  fix v assume v: "strict_suffix v (w @ [c]) \<and> v \<in> W"
  show "length v \<le> length (u @ [c])"
  proof (cases "v = []")
    case True then show ?thesis by simp
  next
    case False
    with v obtain v' where v': "v = v' @ [c]" "strict_suffix v' w"
      by (auto simp: strict_suffix_snoc_cases)
    with v pc have "v' \<in> W" by (auto simp: prefix_closed_def)
    with lp v' have "suffix v' x" by (auto intro: lps_of_suffix)
    with ex v v' have "length v' \<le> length u" by (auto simp: ext_of_def)
    with v' show ?thesis by simp
  qed
qed

lemma lps_of_snoc_none:
  assumes pc: "prefix_closed W" and lp: "lps_of W w x" and ex: "no_ext W x c"
  shows "lps_of W (w @ [c]) []"
  unfolding lps_of_def
proof (intro conjI allI impI)
  show "strict_suffix [] (w @ [c])" by (simp add: strict_suffix_snoc_cases)
  from pc show "[] \<in> W" by (simp add: prefix_closed_def)
next
  fix v assume v: "strict_suffix v (w @ [c]) \<and> v \<in> W"
  show "length v \<le> length ([]::string)"
  proof (cases "v = []")
    case True then show ?thesis by simp
  next
    case False
    with v obtain v' where v': "v = v' @ [c]" "strict_suffix v' w"
      by (auto simp: strict_suffix_snoc_cases)
    with v pc have "v' \<in> W" by (auto simp: prefix_closed_def)
    with lp v' have "suffix v' x" by (auto intro: lps_of_suffix)
    with ex v v' show ?thesis by (auto simp: no_ext_def)
  qed
qed

lemma lps_of_single:
  assumes pc: "prefix_closed W"
  shows "lps_of W [c] []"
  unfolding lps_of_def
proof (intro conjI allI impI)
  show "strict_suffix [] [c]" by (simp add: strict_suffix_def)
  from pc show "[] \<in> W" by (simp add: prefix_closed_def)
next
  fix v assume "strict_suffix v [c] \<and> v \<in> W"
  then have "v = []" using strict_suffix_snoc_cases[of v "[]" c] by auto
  then show "length v \<le> length ([]::string)" by simp
qed

lemma ext_of_lift:
  assumes pc: "prefix_closed W" and lp: "lps_of W w x" and nw: "w @ [c] \<notin> W"
    and ex: "ext_of W x c u"
  shows "ext_of W w c u"
  unfolding ext_of_def
proof (intro conjI allI impI)
  from lp ex show "suffix u w"
    by (auto simp: lps_of_def ext_of_def strict_suffix_def intro: suffix_order.trans)
  from ex show "u @ [c] \<in> W" by (simp add: ext_of_def)
next
  fix v assume v: "suffix v w \<and> v @ [c] \<in> W"
  with nw have "v \<noteq> w" by auto
  with v have "strict_suffix v w" by (simp add: strict_suffix_def)
  moreover from v pc have "v \<in> W" by (auto simp: prefix_closed_def)
  ultimately have "suffix v x" using lp by (auto intro: lps_of_suffix)
  with ex v show "length v \<le> length u" by (auto simp: ext_of_def)
qed

lemma no_ext_lift:
  assumes pc: "prefix_closed W" and lp: "lps_of W w x" and nw: "w @ [c] \<notin> W"
    and ex: "no_ext W x c"
  shows "no_ext W w c"
  unfolding no_ext_def
proof (intro allI impI)
  fix v assume v: "suffix v w"
  show "v @ [c] \<notin> W"
  proof
    assume in_W: "v @ [c] \<in> W"
    with nw have "v \<noteq> w" by auto
    with v have "strict_suffix v w" by (simp add: strict_suffix_def)
    moreover from in_W pc have "v \<in> W" by (auto simp: prefix_closed_def)
    ultimately have "suffix v x" using lp by (auto intro: lps_of_suffix)
    with ex in_W show False by (auto simp: no_ext_def)
  qed
qed

lemma ext_of_self: "w @ [c] \<in> W \<Longrightarrow> ext_of W w c w"
  by (auto simp: ext_of_def suffix_length_le)

lemma trie_prefix_closed:
  assumes tr: "trie h P"
  shows "prefix_closed (paths h P)"
  unfolding prefix_closed_def
proof (intro conjI allI impI)
  from tr have "0 < length (states h)" "P 0 = []" by (auto simp: trie_def)
  then show "[] \<in> paths h P" by (force simp: paths_def)
next
  fix v c assume "v @ [c] \<in> paths h P"
  then obtain x where x: "x < length (states h)" "P x = v @ [c]" by (auto simp: paths_def)
  from tr have P0: "P 0 = []" by (simp add: trie_def)
  have "x \<noteq> 0"
  proof
    assume "x = 0" with x P0 show False by simp
  qed
  with tr x obtain p t where pt: "p < length (states h)" "t \<in> set (trans_of h p)" "dest t = x"
    unfolding trie_def by blast
  with tr have "P x = P p @ [ch t]" unfolding trie_def by blast
  with x have "P p = v" by simp
  with pt show "v \<in> paths h P" by (auto simp: paths_def)
qed

subsection \<open>Looking for a fallback\<close>

text \<open>What \<open>findFallback\<close> and \<open>stepMatching\<close> return on states whose fallbacks are set.\<close>

lemma paths_I: "a < length (states h) \<Longrightarrow> P a \<in> paths h P"
  by (simp add: paths_def)

lemma strict_suffix_length: "strict_suffix u w \<Longrightarrow> length u < length w"
  by (rule suffix_length_less)

lemma auto_inv_fb:
  assumes "auto_inv h P KS ws D" "x \<in> D" "x \<noteq> 0"
  obtains f where "f \<in> D" "fb h x = Some f" "lps_of (paths h P) (P x) (P f)"
    "length (P f) < length (P x)" "f < length (states h)"
proof -
  from assms obtain f where f: "f \<in> D" "fb h x = Some f" "lps_of (paths h P) (P x) (P f)"
    unfolding auto_inv_def by blast
  then have "strict_suffix (P f) (P x)" by (simp add: lps_of_def)
  then have "length (P f) < length (P x)" by (rule strict_suffix_length)
  moreover from assms(1) f(1) have "f < length (states h)" by (auto simp: auto_inv_def)
  ultimately show ?thesis using f that by blast
qed

lemma findFallback_sem:
  assumes ai: "auto_inv h P KS ws D"
  shows "x \<in> D \<Longrightarrow> \<exists>r. findFallback h (Some x) c = Some r \<and>
     (case r of
        Some g \<Rightarrow> g < length (states h) \<and> (\<exists>u. ext_of (paths h P) (P x) c u \<and> P g = u @ [c])
      | None \<Rightarrow> no_ext (paths h P) (P x) c)"
proof (induction "length (P x)" arbitrary: x rule: less_induct)
  case less
  let ?W = "paths h P"
  from ai have tr: "trie h P" and DS: "D \<subseteq> {..<length (states h)}" and fb0: "fb h 0 = None"
    by (auto simp: auto_inv_def)
  have pc: "prefix_closed ?W" by (rule trie_prefix_closed[OF tr])
  from less.prems DS have xn: "x < length (states h)" by auto
  show ?case
  proof (cases "findTransition (states h ! x) c")
    case (Some t)
    then have t: "t \<in> set (trans_of h x)" "ch t = c"
      using findTransition_Some by (auto simp: trans_of_def)
    with tr xn have d: "dest t < length (states h)" "P (dest t) = P x @ [c]"
      unfolding trie_def by blast+
    then have "P x @ [c] \<in> ?W" using paths_I[of "dest t" h P] by simp
    then have "ext_of ?W (P x) c (P x)" by (rule ext_of_self)
    moreover have "findFallback h (Some x) c = Some (Some (dest t))"
      using Some xn by (subst findFallback.simps) (simp add: getState_def)
    ultimately show ?thesis using d by auto
  next
    case None
    then have nf: "c \<notin> ch ` set (trans_of h x)"
      by (simp add: findTransition_None trans_of_def)
    have nw: "P x @ [c] \<notin> ?W" using trie_new_path[OF tr xn nf] by (simp add: paths_def)
    have unf: "findFallback h (Some x) c = findFallback h (fb h x) c"
      using None xn by (subst findFallback.simps) (simp add: getState_def fb_def)
    show ?thesis
    proof (cases "x = 0")
      case True
      have "no_ext ?W (P x) c"
        unfolding no_ext_def
      proof (intro allI impI)
        fix v assume "suffix v (P x)"
        with True tr have "v = P x" by (simp add: trie_def)
        with nw show "v @ [c] \<notin> ?W" by simp
      qed
      moreover have "findFallback h (Some x) c = Some None"
        using unf True fb0 by (simp add: findFallback.simps)
      ultimately show ?thesis by simp
    next
      case False
      from auto_inv_fb[OF ai less.prems False] obtain f where
        f: "f \<in> D" "fb h x = Some f" "lps_of ?W (P x) (P f)" "length (P f) < length (P x)"
        by blast
      from less.hyps[OF f(4) f(1)] obtain r where
        r: "findFallback h (Some f) c = Some r"
           "case r of
              Some g \<Rightarrow> g < length (states h) \<and> (\<exists>u. ext_of ?W (P f) c u \<and> P g = u @ [c])
            | None \<Rightarrow> no_ext ?W (P f) c" by blast
      have "case r of
              Some g \<Rightarrow> g < length (states h) \<and> (\<exists>u. ext_of ?W (P x) c u \<and> P g = u @ [c])
            | None \<Rightarrow> no_ext ?W (P x) c"
      proof (cases r)
        case None
        with r(2) have "no_ext ?W (P f) c" by simp
        then have "no_ext ?W (P x) c" by (rule no_ext_lift[OF pc f(3) nw])
        with None show ?thesis by simp
      next
        case (Some g)
        with r(2) obtain u where u: "g < length (states h)" "ext_of ?W (P f) c u" "P g = u @ [c]"
          by auto
        from u(2) have "ext_of ?W (P x) c u" by (rule ext_of_lift[OF pc f(3) nw])
        with u Some show ?thesis by auto
      qed
      with unf f(2) r(1) show ?thesis by simp
    qed
  qed
qed

lemma stepMatching_findFallback:
  assumes ai: "auto_inv h P KS ws D"
  shows "x \<in> D \<Longrightarrow> findFallback h (Some x) c = Some r \<Longrightarrow>
     stepMatching h x c = Some (case r of Some g \<Rightarrow> (True, g) | None \<Rightarrow> (False, 0))"
proof (induction "length (P x)" arbitrary: x rule: less_induct)
  case less
  from ai have DS: "D \<subseteq> {..<length (states h)}" and fb0: "fb h 0 = None"
    by (auto simp: auto_inv_def)
  from less.prems DS have xn: "x < length (states h)" by auto
  show ?case
  proof (cases "findTransition (states h ! x) c")
    case (Some t)
    have "findFallback h (Some x) c = Some (Some (dest t))"
      using Some xn by (subst findFallback.simps) (simp add: getState_def)
    moreover have "stepMatching h x c = Some (True, dest t)"
      using Some xn by (subst stepMatching.simps) (simp add: getState_def)
    ultimately show ?thesis using less.prems by simp
  next
    case None
    have unf: "findFallback h (Some x) c = findFallback h (fb h x) c"
      using None xn by (subst findFallback.simps) (simp add: getState_def fb_def)
    show ?thesis
    proof (cases "x = 0")
      case True
      have "findFallback h (Some x) c = Some None"
        using unf True fb0 by (simp add: findFallback.simps)
      moreover have "stepMatching h x c = Some (False, 0)"
        using None xn True fb0 by (subst stepMatching.simps) (simp add: getState_def fb_def)
      ultimately show ?thesis using less.prems by simp
    next
      case False
      from auto_inv_fb[OF ai less.prems(1) False] obtain f where
        f: "f \<in> D" "fb h x = Some f" "length (P f) < length (P x)"
        by blast
      have "stepMatching h x c = stepMatching h f c"
        using None xn f(2) by (subst stepMatching.simps) (simp add: getState_def fb_def)
      moreover have "findFallback h (Some f) c = Some r" using unf f(2) less.prems by simp
      ultimately show ?thesis using less.hyps[OF f(3) f(1)] by simp
    qed
  qed
qed

lemma link_effect:
  assumes d: "d < length (states h)" and f: "f < length (states h)" and df: "d \<noteq> f"
    and k: "\<And>k. rb h d = NextOf k \<Longrightarrow> k < length (rnodes h)"
  shows "\<exists>h2. (do {
       ds \<leftarrow> getState h d;
       h1 \<leftarrow> putState h d (ds\<lparr>fallback := Some f\<rparr>);
       ds1 \<leftarrow> getState h1 d;
       f' \<leftarrow> fallback ds1;
       fs \<leftarrow> getState h1 f';
       storeBack h1 d (results fs) }) = Some h2 \<and>
      length (states h2) = length (states h) \<and> length (rnodes h2) = length (rnodes h) \<and>
      (\<forall>a. trans_of h2 a = trans_of h a) \<and> (\<forall>a. rb h2 a = rb h a) \<and>
      (\<forall>a. fb h2 a = (if a = d then Some f else fb h a)) \<and>
      (\<forall>a. res h2 a = (if a = d \<and> rb h d = OwnResults then res h f else res h a)) \<and>
      (\<forall>k < length (rnodes h). rnodes h2 ! k =
          (if rb h d = NextOf k then (rnodes h ! k)\<lparr>next_r := res h f\<rparr> else rnodes h ! k))"
proof (cases "rb h d")
  case OwnResults
  then show ?thesis using d f df
    by (auto simp: storeBack_def getState_def putState_def
        rb_def res_def fb_def trans_of_def nth_list_update)
next
  case (NextOf k0)
  with k have "k0 < length (rnodes h)" by simp
  with NextOf show ?thesis using d f df
    by (auto simp: storeBack_def getState_def putState_def getResult_def putResult_def
        rb_def res_def fb_def trans_of_def nth_list_update)
qed

subsection \<open>Linking one child\<close>

text \<open>The effect of one iteration of the loop over the transitions, and the invariant it keeps.\<close>

lemma linkChildren_step:
  assumes d: "dest t < length (states h)" and f: "f < length (states h)" and df: "dest t \<noteq> f"
    and k: "\<And>k. rb h (dest t) = NextOf k \<Longrightarrow> k < length (rnodes h)"
    and ff: "findFallback h sf (ch t) = Some r"
    and fr: "f = (case r of Some g \<Rightarrow> g | None \<Rightarrow> root)"
  shows "\<exists>h2. linkChildren h root sf (t # ts) q = linkChildren h2 root sf ts (q @ [dest t]) \<and>
      length (states h2) = length (states h) \<and> length (rnodes h2) = length (rnodes h) \<and>
      (\<forall>a. trans_of h2 a = trans_of h a) \<and> (\<forall>a. rb h2 a = rb h a) \<and>
      (\<forall>a. fb h2 a = (if a = dest t then Some f else fb h a)) \<and>
      (\<forall>a. res h2 a = (if a = dest t \<and> rb h (dest t) = OwnResults then res h f else res h a)) \<and>
      (\<forall>k < length (rnodes h). rnodes h2 ! k =
          (if rb h (dest t) = NextOf k then (rnodes h ! k)\<lparr>next_r := res h f\<rparr> else rnodes h ! k))"
proof -
  from link_effect[OF d f df k] obtain h2 where
    h2: "(do {
       ds \<leftarrow> getState h (dest t);
       h1 \<leftarrow> putState h (dest t) (ds\<lparr>fallback := Some f\<rparr>);
       ds1 \<leftarrow> getState h1 (dest t);
       f' \<leftarrow> fallback ds1;
       fs \<leftarrow> getState h1 f';
       storeBack h1 (dest t) (results fs) }) = Some h2"
    and eff: "length (states h2) = length (states h) \<and> length (rnodes h2) = length (rnodes h) \<and>
      (\<forall>a. trans_of h2 a = trans_of h a) \<and> (\<forall>a. rb h2 a = rb h a) \<and>
      (\<forall>a. fb h2 a = (if a = dest t then Some f else fb h a)) \<and>
      (\<forall>a. res h2 a = (if a = dest t \<and> rb h (dest t) = OwnResults then res h f else res h a)) \<and>
      (\<forall>k < length (rnodes h). rnodes h2 ! k =
          (if rb h (dest t) = NextOf k then (rnodes h ! k)\<lparr>next_r := res h f\<rparr> else rnodes h ! k))"
    by blast
  have "linkChildren h root sf (t # ts) q =
     (do {
       ds \<leftarrow> getState h (dest t);
       h1 \<leftarrow> putState h (dest t) (ds\<lparr>fallback := Some f\<rparr>);
       ds1 \<leftarrow> getState h1 (dest t);
       f' \<leftarrow> fallback ds1;
       fs \<leftarrow> getState h1 f';
       storeBack h1 (dest t) (results fs) }) \<bind> (\<lambda>h2. linkChildren h2 root sf ts (q @ [dest t]))"
    using ff fr by (simp add: Let_def)
  with h2 eff show ?thesis by (intro exI[of _ h2]) simp
qed

lemma depth_closure:
  assumes ai: "auto_inv h P KS ws (set (done @ s # q))"
    and li: "link_inv h P done s pre ts q"
  shows "a < length (states h) \<Longrightarrow> length (P a) \<le> length (P s) \<Longrightarrow> a \<in> set (done @ s # q)"
proof (induction "length (P a)" arbitrary: a rule: less_induct)
  case less
  from ai have tr: "trie h P" and r0: "0 \<in> set (done @ s # q)" by (auto simp: auto_inv_def)
  show ?case
  proof (cases "a = 0")
    case True with r0 show ?thesis by simp
  next
    case False
    with tr less.prems obtain p t where
      pt: "p < length (states h)" "t \<in> set (trans_of h p)" "dest t = a"
      unfolding trie_def by blast
    with tr have Pa: "P a = P p @ [ch t]" unfolding trie_def by blast
    then have lt: "length (P p) < length (P a)" by simp
    with less.prems have "length (P p) \<le> length (P s)" by simp
    from less.hyps[OF lt pt(1) this] have pin: "p \<in> set (done @ s # q)" .
    from lt less.prems have lps: "length (P p) < length (P s)" by simp
    then have "p \<noteq> s" by auto
    moreover have "p \<notin> set q"
    proof
      assume "p \<in> set q"
      moreover from li have "sorted (map (\<lambda>x. length (P x)) (s # q))" by (simp add: link_inv_def)
      ultimately have "length (P s) \<le> length (P p)" by auto
      with lps show False by simp
    qed
    ultimately have "p \<in> set done" using pin by auto
    moreover from li pt have "dest t \<in> set (done @ s # q) \<longleftrightarrow> p \<in> set done \<or> (p = s \<and> t \<in> set pre)"
      unfolding link_inv_def by blast
    ultimately show ?thesis using pt by simp
  qed
qed

lemma own_lists_rb_bound:
  assumes "own_lists h KS" "a < length (states h)" "rb h a = NextOf k"
  shows "k < length (rnodes h) \<and> KS a \<noteq> [] \<and> k = last (KS a)"
proof -
  from assms have 1: "rb h a = (if KS a = [] then OwnResults else NextOf (last (KS a)))"
      and 2: "set (KS a) \<subseteq> {..<length (rnodes h)}" by (auto simp: own_lists_def)
  with assms(3) have 3: "KS a \<noteq> []" "k = last (KS a)" by (auto split: if_splits)
  then have "k \<in> set (KS a)" by simp
  with 2 have "k < length (rnodes h)" by auto
  with 3 show ?thesis by simp
qed

lemma auto_inv_link:
  assumes ai: "auto_inv h P KS ws D" and d: "d < length (states h)" and dD: "d \<notin> D"
    and fD: "f \<in> D" and lp: "lps_of (paths h P) (P d) (P f)"
    and len: "length (states h2) = length (states h)"
    and rlen: "length (rnodes h2) = length (rnodes h)"
    and tre: "\<forall>a. trans_of h2 a = trans_of h a" and rbe: "\<forall>a. rb h2 a = rb h a"
    and fbe: "\<forall>a. fb h2 a = (if a = d then Some f else fb h a)"
    and rese: "\<forall>a. res h2 a = (if a = d \<and> rb h d = OwnResults then res h f else res h a)"
    and rne: "\<forall>k < length (rnodes h). rnodes h2 ! k =
          (if rb h d = NextOf k then (rnodes h ! k)\<lparr>next_r := res h f\<rparr> else rnodes h ! k)"
  shows "auto_inv h2 P KS ws (insert d D)"
proof -
  let ?n = "length (states h)"
  from ai have tr: "trie h P" and ol: "own_lists h KS" and cl: "closed h KS"
    and ct: "content h P KS ws" and DS: "D \<subseteq> {..<?n}" and r0: "0 \<in> D" and fb0: "fb h 0 = None"
    and nD: "\<And>a. a < ?n \<Longrightarrow> a \<notin> D \<Longrightarrow> fb h a = None"
    and inD: "\<And>a. a \<in> D \<Longrightarrow> a \<noteq> 0 \<Longrightarrow> \<exists>f \<in> D. fb h a = Some f \<and> lps_of (paths h P) (P a) (P f)"
    by (auto simp: auto_inv_def)
  have fd: "f \<noteq> d" using fD dD by auto
  have d0: "d \<noteq> 0"
  proof
    assume "d = 0" with r0 dD show False by simp
  qed
  have pe: "paths h2 P = paths h P" by (simp add: paths_def len)
  have tr2: "trie h2 P" using tr len tre by (auto intro: trie_cong)
  have ol2: "own_lists h2 KS" using ol len rlen rbe by (simp add: own_lists_def)
  have dist: "\<And>a. distinct (KS a)" and bnd: "\<And>a. set (KS a) \<subseteq> {..<length (rnodes h)}"
    and disj: "\<And>a b. a \<noteq> b \<Longrightarrow> set (KS a) \<inter> set (KS b) = {}"
    and rbh: "\<And>a. a < ?n \<Longrightarrow> rb h a = (if KS a = [] then OwnResults else NextOf (last (KS a)))"
    using ol by (auto simp: own_lists_def)
  have segs: "\<And>a. a < ?n \<Longrightarrow> seg h (res h a) (KS a) (case fb h a of None \<Rightarrow> None | Some f \<Rightarrow> res h f)"
    using cl unfolding closed_def by blast
  have fb_in_D: "\<And>a g. a < ?n \<Longrightarrow> fb h a = Some g \<Longrightarrow> g \<in> D"
  proof -
    fix a g assume a: "a < ?n" "fb h a = Some g"
    with nD[of a] have "a \<in> D" by auto
    moreover from a fb0 have "a \<noteq> 0" by (metis option.distinct(1))
    ultimately show "g \<in> D" using inD[of a] a by auto
  qed
  have cl2: "closed h2 KS"
    unfolding closed_def
  proof (intro allI impI)
    fix a assume a2: "a < length (states h2)"
    then have a: "a < ?n" using len by simp
    show "seg h2 (res h2 a) (KS a) (case fb h2 a of None \<Rightarrow> None | Some f \<Rightarrow> res h2 f)"
    proof (cases "a = d")
      case False
      have tail: "(case fb h2 a of None \<Rightarrow> None | Some f \<Rightarrow> res h2 f) =
                  (case fb h a of None \<Rightarrow> None | Some f \<Rightarrow> res h f)"
      proof (cases "fb h a")
        case None with False fbe show ?thesis by simp
      next
        case (Some g)
        with fb_in_D[OF a] dD have "g \<noteq> d" by auto
        with Some False fbe rese show ?thesis by simp
      qed
      have "seg h2 (res h a) (KS a) (case fb h a of None \<Rightarrow> None | Some f \<Rightarrow> res h f)"
        using segs[OF a]
      proof (rule seg_frame)
        fix k assume k: "k \<in> set (KS a)"
        then have kl: "k < length (rnodes h)" using bnd[of a] by auto
        have "rb h d \<noteq> NextOf k"
        proof
          assume "rb h d = NextOf k"
          from own_lists_rb_bound[OF ol d this] have "k \<in> set (KS d)" by auto
          with disj[OF False] k show False by auto
        qed
        with rne kl rlen
        show "k < length (rnodes h2) \<and> next_r (rnodes h2 ! k) = next_r (rnodes h ! k)" by simp
      qed
      with tail rese False show ?thesis by simp
    next
      case True
      have fbd: "fb h d = None" using nD[OF d dD] .
      with segs[OF d] have sd: "seg h (res h d) (KS d) None" by simp
      have tail: "(case fb h2 d of None \<Rightarrow> None | Some f \<Rightarrow> res h2 f) = res h f"
        using fbe rese fd by simp
      show ?thesis
      proof (cases "KS d = []")
        case e: True
        then have "rb h d = OwnResults" using rbh[OF d] by simp
        with e tail rese True show ?thesis by simp
      next
        case ne: False
        then have rbd: "rb h d = NextOf (last (KS d))" using rbh[OF d] by simp
        have "seg h2 (res h d) (KS d) (res h f)"
        proof (rule seg_last_update[OF sd ne dist])
          show "length (rnodes h) \<le> length (rnodes h2)" using rlen by simp
        next
          fix k assume "k < length (rnodes h)"
          then show "next_r (rnodes h2 ! k) = (if k = last (KS d) then res h f else next_r (rnodes h ! k))"
            using rne rbd by auto
        qed
        moreover have "res h2 d = res h d" using rese rbd by simp
        ultimately show ?thesis using tail True by simp
      qed
    qed
  qed
  have recs: "\<And>k. k < length (rnodes h) \<Longrightarrow> rec_of (rnodes h2 ! k) = rec_of (rnodes h ! k)"
    using rne by (simp add: rec_of_def)
  have ct2: "content h2 P KS ws"
    unfolding content_def
  proof (intro conjI allI impI)
    fix j assume "j < length ws"
    with ct pe show "ws ! j \<in> paths h2 P" by (simp add: content_def)
  next
    fix a assume "a < length (states h2)"
    then have a: "a < ?n" using len by simp
    have "map (\<lambda>k. rec_of (rnodes h2 ! k)) (KS a) = map (\<lambda>k. rec_of (rnodes h ! k)) (KS a)"
      using bnd[of a] recs by (intro map_cong) auto
    with ct a show "map (\<lambda>k. rec_of (rnodes h2 ! k)) (KS a) =
        map (\<lambda>j. (j, length (ws ! j))) (filter (\<lambda>j. ws ! j = P a) [0..<length ws])"
      by (simp add: content_def)
  qed
  have "\<forall>a \<in> insert d D. a \<noteq> 0 \<longrightarrow>
      (\<exists>g \<in> insert d D. fb h2 a = Some g \<and> lps_of (paths h2 P) (P a) (P g))"
  proof (intro ballI impI)
    fix a assume a: "a \<in> insert d D" "a \<noteq> 0"
    show "\<exists>g \<in> insert d D. fb h2 a = Some g \<and> lps_of (paths h2 P) (P a) (P g)"
    proof (cases "a = d")
      case True
      with fbe lp pe fD show ?thesis by auto
    next
      case False
      with a have "a \<in> D" by simp
      from inD[OF this a(2)] False fbe pe show ?thesis by auto
    qed
  qed
  moreover have "\<forall>a < length (states h2). a \<notin> insert d D \<longrightarrow> fb h2 a = None"
    using nD fbe len by simp
  moreover have "insert d D \<subseteq> {..<length (states h2)}" using DS d len by auto
  moreover have "fb h2 0 = None" using fbe d0 fb0 by simp
  ultimately show ?thesis
    unfolding auto_inv_def using tr2 ol2 cl2 ct2 r0 by simp
qed

subsection \<open>Linking all children of a state\<close>

text \<open>The loop over the transitions of the state taken from the queue.\<close>

lemma distinct_map_eq:
  "distinct (map f xs) \<Longrightarrow> x \<in> set xs \<Longrightarrow> y \<in> set xs \<Longrightarrow> f x = f y \<Longrightarrow> x = y"
  by (meson distinct_map inj_onD)

lemma link_one:
  assumes ai: "auto_inv h P KS ws (set (done @ s # q))"
    and li: "link_inv h P done s pre (t # ts) q"
  shows "\<exists>h2. linkChildren h 0 (fb h s) (t # ts) q = linkChildren h2 0 (fb h s) ts (q @ [dest t]) \<and>
      auto_inv h2 P KS ws (set (done @ s # (q @ [dest t]))) \<and>
      link_inv h2 P done s (pre @ [t]) ts (q @ [dest t]) \<and>
      fb h2 s = fb h s \<and> length (states h2) = length (states h)"
proof -
  let ?n = "length (states h)" and ?W = "paths h P" and ?D = "set (done @ s # q)"
  let ?d = "dest t" and ?c = "ch t"
  from ai have tr: "trie h P" and ol: "own_lists h KS" and DS: "?D \<subseteq> {..<?n}"
    and r0: "0 \<in> ?D" and fb0: "fb h 0 = None"
    by (auto simp: auto_inv_def)
  from tr have P0: "P 0 = []" and inj: "inj_on P {..<?n}"
    and T3: "\<And>a t. a < ?n \<Longrightarrow> t \<in> set (trans_of h a) \<Longrightarrow> dest t < ?n \<and> P (dest t) = P a @ [ch t]"
    and T4: "\<And>a. a < ?n \<Longrightarrow> distinct (map ch (trans_of h a))"
    unfolding trie_def by blast+
  have pc: "prefix_closed ?W" by (rule trie_prefix_closed[OF tr])
  from li have sn: "s < ?n" and ts: "trans_of h s = pre @ t # ts"
    and dist: "distinct (done @ s # q)"
    and B: "\<And>p t'. p < ?n \<Longrightarrow> t' \<in> set (trans_of h p) \<Longrightarrow>
          dest t' \<in> ?D \<longleftrightarrow> p \<in> set done \<or> (p = s \<and> t' \<in> set pre)"
    and srt: "sorted (map (\<lambda>x. length (P x)) (s # q))"
    and bnd: "\<And>x. x \<in> set q \<Longrightarrow> length (P x) \<le> length (P s) + 1"
    unfolding link_inv_def by blast+
  have tin: "t \<in> set (trans_of h s)" using ts by simp
  from T3[OF sn tin] have dn: "?d < ?n" and Pd: "P ?d = P s @ [?c]" by auto
  have tpre: "t \<notin> set pre"
  proof
    assume "t \<in> set pre"
    moreover from T4[OF sn] ts have "distinct (map ch (pre @ t # ts))" by simp
    ultimately show False by auto
  qed
  have snd: "s \<notin> set done" using dist by auto
  have dD: "?d \<notin> ?D" using B[OF sn tin] tpre snd by blast
  have sD: "s \<in> ?D" by simp
  have "\<exists>r f. findFallback h (fb h s) ?c = Some r \<and> f = (case r of Some g \<Rightarrow> g | None \<Rightarrow> 0) \<and>
          f \<in> ?D \<and> lps_of ?W (P ?d) (P f)"
  proof (cases "s = 0")
    case True
    have "findFallback h (fb h s) ?c = Some None" using True fb0 by (simp add: findFallback.simps)
    moreover have "lps_of ?W (P ?d) (P 0)" using Pd True P0 lps_of_single[OF pc] by simp
    ultimately show ?thesis using r0 by auto
  next
    case False
    from auto_inv_fb[OF ai sD False] obtain x where
      x: "x \<in> ?D" "fb h s = Some x" "lps_of ?W (P s) (P x)" "length (P x) < length (P s)"
      by blast
    from findFallback_sem[OF ai x(1), of ?c] obtain r where
      r: "findFallback h (Some x) ?c = Some r"
         "case r of
            Some g \<Rightarrow> g < ?n \<and> (\<exists>u. ext_of ?W (P x) ?c u \<and> P g = u @ [?c])
          | None \<Rightarrow> no_ext ?W (P x) ?c" by blast
    show ?thesis
    proof (cases r)
      case None
      with r(2) have "no_ext ?W (P x) ?c" by simp
      then have "lps_of ?W (P s @ [?c]) []" by (rule lps_of_snoc_none[OF pc x(3)])
      with None r(1) x(2) Pd P0 r0 show ?thesis by auto
    next
      case (Some g)
      with r(2) obtain u where u: "g < ?n" "ext_of ?W (P x) ?c u" "P g = u @ [?c]" by auto
      from u(2) have lp: "lps_of ?W (P s @ [?c]) (u @ [?c])" by (rule lps_of_snoc[OF pc x(3)])
      from u(2) have "length u \<le> length (P x)" by (auto simp: ext_of_def suffix_length_le)
      with u(3) x(4) have "length (P g) \<le> length (P s)" by simp
      from depth_closure[OF ai li u(1) this] have "g \<in> ?D" .
      with Some r(1) x(2) Pd lp u(3) show ?thesis by auto
    qed
  qed
  then obtain r f where ff: "findFallback h (fb h s) ?c = Some r"
    and fr: "f = (case r of Some g \<Rightarrow> g | None \<Rightarrow> 0)"
    and fD: "f \<in> ?D" and lp: "lps_of ?W (P ?d) (P f)" by blast
  have fn: "f < ?n" using fD DS by auto
  have dfne: "?d \<noteq> f" using fD dD by auto
  have kb: "\<And>k. rb h ?d = NextOf k \<Longrightarrow> k < length (rnodes h)"
    using own_lists_rb_bound[OF ol dn] by blast
  from linkChildren_step[OF dn fn dfne kb ff fr, of ts q] obtain h2 where
    step: "linkChildren h 0 (fb h s) (t # ts) q = linkChildren h2 0 (fb h s) ts (q @ [?d])"
    and len: "length (states h2) = ?n" and rlen: "length (rnodes h2) = length (rnodes h)"
    and tre: "\<forall>a. trans_of h2 a = trans_of h a" and rbe: "\<forall>a. rb h2 a = rb h a"
    and fbe: "\<forall>a. fb h2 a = (if a = ?d then Some f else fb h a)"
    and rese: "\<forall>a. res h2 a = (if a = ?d \<and> rb h ?d = OwnResults then res h f else res h a)"
    and rne: "\<forall>k < length (rnodes h). rnodes h2 ! k =
          (if rb h ?d = NextOf k then (rnodes h ! k)\<lparr>next_r := res h f\<rparr> else rnodes h ! k)"
    by blast
  have "auto_inv h2 P KS ws (insert ?d ?D)"
    by (rule auto_inv_link[OF ai dn dD fD lp len rlen tre rbe fbe rese rne])
  moreover have "insert ?d ?D = set (done @ s # (q @ [?d]))" by auto
  ultimately have ai2: "auto_inv h2 P KS ws (set (done @ s # (q @ [?d])))" by simp
  have sd: "s \<noteq> ?d" using sD dD by auto
  have fbs: "fb h2 s = fb h s" using fbe sd by simp
  have li2: "link_inv h2 P done s (pre @ [t]) ts (q @ [?d])"
    unfolding link_inv_def
  proof (intro conjI allI impI ballI)
    show "s < length (states h2)" using sn len by simp
    show "trans_of h2 s = (pre @ [t]) @ ts" using tre ts by simp
    show "distinct (done @ s # q @ [?d])" using dist dD by auto
    show "sorted (map (\<lambda>x. length (P x)) (s # q @ [?d]))"
    proof -
      have "\<forall>x \<in> set (s # q). length (P x) \<le> length (P ?d)" using bnd Pd by auto
      with srt have "sorted (map (\<lambda>x. length (P x)) ((s # q) @ [?d]))"
        unfolding map_append sorted_append by auto
      then show ?thesis by simp
    qed
  next
    fix x assume "x \<in> set (q @ [?d])"
    then show "length (P x) \<le> length (P s) + 1" using bnd Pd by auto
  next
    fix p t' assume p2: "p < length (states h2)" and t'2: "t' \<in> set (trans_of h2 p)"
    then have p: "p < ?n" and t': "t' \<in> set (trans_of h p)" using len tre by auto
    from T3[OF p t'] have Pt': "P (dest t') = P p @ [ch t']" by simp
    show "dest t' \<in> set (done @ s # q @ [?d]) \<longleftrightarrow> p \<in> set done \<or> (p = s \<and> t' \<in> set (pre @ [t]))"
    proof (cases "dest t' = ?d")
      case True
      with Pt' Pd have "P p = P s" "ch t' = ?c" by auto
      with inj p sn have ps: "p = s" by (auto simp: inj_on_def)
      with t' tin T4[OF sn] \<open>ch t' = ?c\<close> have "t' = t" by (auto intro: distinct_map_eq)
      with ps True show ?thesis by simp
    next
      case False
      then have "t' \<noteq> t" by auto
      with B[OF p t'] False show ?thesis by auto
    qed
  qed
  from step ai2 li2 fbs len show ?thesis by blast
qed

lemma linkChildren_inv:
  "auto_inv h P KS ws (set (done @ s # q)) \<Longrightarrow> link_inv h P done s pre ts q \<Longrightarrow>
   sf = fb h s \<Longrightarrow>
   \<exists>h' q'. linkChildren h 0 sf ts q = Some (h', q') \<and>
      auto_inv h' P KS ws (set (done @ s # q')) \<and>
      link_inv h' P done s (pre @ ts) [] q' \<and> length (states h') = length (states h)"
proof (induction ts arbitrary: h pre q)
  case Nil
  then show ?case by auto
next
  case (Cons t ts)
  from link_one[OF Cons.prems(1,2)] obtain h2 where
    2: "linkChildren h 0 (fb h s) (t # ts) q = linkChildren h2 0 (fb h s) ts (q @ [dest t])"
       "auto_inv h2 P KS ws (set (done @ s # (q @ [dest t])))"
       "link_inv h2 P done s (pre @ [t]) ts (q @ [dest t])"
       "fb h2 s = fb h s" "length (states h2) = length (states h)" by blast
  from Cons.IH[OF 2(2,3)] 2(4) Cons.prems(3) obtain h' q' where
    3: "linkChildren h2 0 sf ts (q @ [dest t]) = Some (h', q')"
       "auto_inv h' P KS ws (set (done @ s # q'))"
       "link_inv h' P done s ((pre @ [t]) @ ts) [] q'"
       "length (states h') = length (states h2)" by auto
  from 2 3 Cons.prems(3) show ?case by auto
qed

subsection \<open>The breadth-first traversal\<close>

text \<open>\<open>forestIntoStateMachine\<close> returns, with every fallback and every result list set.\<close>

lemma bfs_all_done:
  assumes ai: "auto_inv h P KS ws (set done)" and bi: "bfs_inv h P done []"
  shows "a < length (states h) \<Longrightarrow> a \<in> set done"
proof (induction "length (P a)" arbitrary: a rule: less_induct)
  case less
  from ai have tr: "trie h P" and r0: "0 \<in> set done" by (auto simp: auto_inv_def)
  show ?case
  proof (cases "a = 0")
    case True with r0 show ?thesis by simp
  next
    case False
    with tr less.prems obtain p t where
      pt: "p < length (states h)" "t \<in> set (trans_of h p)" "dest t = a"
      unfolding trie_def by blast
    with tr have "P a = P p @ [ch t]" unfolding trie_def by blast
    then have "length (P p) < length (P a)" by simp
    from less.hyps[OF this pt(1)] have "p \<in> set done" .
    moreover from bi pt have "dest t \<in> set (done @ []) \<longleftrightarrow> p \<in> set done"
      unfolding bfs_inv_def by blast
    ultimately show ?thesis using pt by simp
  qed
qed

lemma stateMachineLoop_inv:
  "auto_inv h P KS ws (set (done @ q)) \<Longrightarrow> bfs_inv h P done q \<Longrightarrow>
   \<exists>h'. stateMachineLoop h 0 q = Some h' \<and> auto_inv h' P KS ws {..<length (states h')} \<and>
      length (states h') = length (states h)"
proof (induction "length (states h) - length done" arbitrary: h "done" q rule: less_induct)
  case less
  let ?n = "length (states h)"
  from less.prems(1) have DS: "set (done @ q) \<subseteq> {..<?n}" by (simp add: auto_inv_def)
  show ?case
  proof (cases q)
    case Nil
    have "set done = {..<?n}"
      using bfs_all_done[of h P KS ws "done"] less.prems DS Nil by auto
    with less.prems(1) Nil show ?thesis by (simp add: stateMachineLoop.simps)
  next
    case (Cons s q1)
    with DS have sn: "s < ?n" by simp
    from less.prems(2) Cons have
      dist: "distinct (done @ s # q1)"
      and B: "\<forall>p < ?n. \<forall>t \<in> set (trans_of h p). dest t \<in> set (done @ s # q1) \<longleftrightarrow> p \<in> set done"
      and srt: "sorted (map (\<lambda>x. length (P x)) (s # q1))"
      and bnd: "\<forall>x \<in> set (s # q1). length (P x) \<le> length (P s) + 1"
      by (auto simp: bfs_inv_def)
    have li: "link_inv h P done s [] (trans_of h s) q1"
      unfolding link_inv_def using sn dist B srt bnd by simp
    have ai: "auto_inv h P KS ws (set (done @ s # q1))" using less.prems(1) Cons by simp
    from linkChildren_inv[OF ai li refl] obtain h1 q2 where
      1: "linkChildren h 0 (fb h s) (trans_of h s) q1 = Some (h1, q2)"
         "auto_inv h1 P KS ws (set (done @ s # q2))"
         "link_inv h1 P done s ([] @ trans_of h s) [] q2"
         "length (states h1) = ?n" by blast
    from 1(3) have
      dist2: "distinct (done @ s # q2)"
      and ts2: "trans_of h1 s = trans_of h s"
      and B2: "\<And>p t. p < length (states h1) \<Longrightarrow> t \<in> set (trans_of h1 p) \<Longrightarrow>
           dest t \<in> set (done @ s # q2) \<longleftrightarrow> p \<in> set done \<or> (p = s \<and> t \<in> set (trans_of h s))"
      and srt2: "sorted (map (\<lambda>x. length (P x)) (s # q2))"
      and bnd2: "\<And>x. x \<in> set q2 \<Longrightarrow> length (P x) \<le> length (P s) + 1"
      unfolding link_inv_def by (simp, simp, (simp; blast), simp, simp)
    have bi2: "bfs_inv h1 P (done @ [s]) q2"
      unfolding bfs_inv_def
    proof (intro conjI allI impI ballI)
      show "distinct ((done @ [s]) @ q2)" using dist2 by simp
      show "sorted (map (\<lambda>x. length (P x)) q2)" using srt2 by simp
    next
      fix x assume x: "x \<in> set q2"
      then have "q2 \<noteq> []" by auto
      then have "hd q2 \<in> set q2" by simp
      with srt2 have "length (P s) \<le> length (P (hd q2))" by auto
      with bnd2[OF x] show "length (P x) \<le> length (P (hd q2)) + 1" by simp
    next
      fix p t assume p: "p < length (states h1)" and t: "t \<in> set (trans_of h1 p)"
      from B2[OF p t] t ts2
      show "dest t \<in> set ((done @ [s]) @ q2) \<longleftrightarrow> p \<in> set (done @ [s])" by auto
    qed
    have ai2: "auto_inv h1 P KS ws (set ((done @ [s]) @ q2))" using 1(2) by simp
    have "card (set (done @ s # q1)) \<le> card {..<?n}"
      using DS Cons by (intro card_mono) auto
    moreover have "card (set (done @ s # q1)) = length (done @ s # q1)"
      using dist by (rule distinct_card)
    ultimately have "length (done @ s # q1) \<le> ?n" by simp
    then have "length (states h1) - length (done @ [s]) < ?n - length done"
      using 1(4) by simp
    from less.hyps[OF this ai2 bi2] obtain h' where
      3: "stateMachineLoop h1 0 q2 = Some h'" "auto_inv h' P KS ws {..<length (states h')}"
         "length (states h') = length (states h1)" by blast
    have "stateMachineLoop h 0 q = stateMachineLoop h1 0 q2"
      using Cons sn 1(1)
      by (subst stateMachineLoop.simps) (simp add: getState_def fb_def trans_of_def)
    with 3 1(4) show ?thesis by simp
  qed
qed

lemma forestIntoStateMachine_inv:
  assumes inv: "forest_inv h P KS ws"
  shows "\<exists>h'. forestIntoStateMachine h 0 = Some h' \<and> auto_inv h' P KS ws {..<length (states h')} \<and>
      length (states h') = length (states h)"
proof -
  let ?n = "length (states h)"
  from inv have tr: "trie h P" and fbn: "\<And>a. a < ?n \<Longrightarrow> fb h a = None"
    by (auto simp: forest_inv_def)
  from tr have n0: "0 < ?n" and P0: "P 0 = []"
    and T3: "\<And>a t. a < ?n \<Longrightarrow> t \<in> set (trans_of h a) \<Longrightarrow> P (dest t) = P a @ [ch t]"
    unfolding trie_def by blast+
  have ai: "auto_inv h P KS ws (set ([] @ [0]))"
    using inv n0 fbn by (simp add: auto_inv_def forest_inv_def)
  have nz: "\<And>p t. p < ?n \<Longrightarrow> t \<in> set (trans_of h p) \<Longrightarrow> dest t \<noteq> 0"
  proof
    fix p t assume "p < ?n" "t \<in> set (trans_of h p)" "dest t = 0"
    with T3[of p t] P0 show False by simp
  qed
  have bi: "bfs_inv h P [] [0]"
    unfolding bfs_inv_def using nz by simp
  from stateMachineLoop_inv[OF ai bi] show ?thesis by (simp add: forestIntoStateMachine_def)
qed

subsection \<open>Paths, walks and result lists\<close>

text \<open>Walks from the root are the paths; the loop over the result records reads a segment.\<close>

lemma walk_append: "walk h a (u @ v) = walk h a u \<bind> (\<lambda>b. walk h b v)"
proof (induction u arbitrary: a)
  case Nil
  show ?case by (cases v) (auto simp: getState_def)
next
  case (Cons c u)
  show ?case
  proof (cases "getState h a")
    case None then show ?thesis by simp
  next
    case (Some st)
    then show ?thesis using Cons by (cases "findTransition st c") auto
  qed
qed

lemma walk_path:
  assumes tr: "trie h P"
  shows "a < length (states h) \<Longrightarrow> walk h a w = Some b \<Longrightarrow>
         b < length (states h) \<and> P b = P a @ w"
proof (induction w arbitrary: a)
  case Nil
  then show ?case by (simp split: if_splits)
next
  case (Cons c w)
  from Cons.prems obtain t where t: "findTransition (states h ! a) c = Some t"
    and w: "walk h (dest t) w = Some b"
    by (auto simp: getState_def split: bind_splits)
  from t have "t \<in> set (trans_of h a)" "ch t = c"
    using findTransition_Some by (auto simp: trans_of_def)
  with tr Cons.prems(1) have d: "dest t < length (states h)" "P (dest t) = P a @ [c]"
    unfolding trie_def by blast+
  from Cons.IH[OF d(1) w] d(2) show ?case by simp
qed

lemma findTransition_in:
  assumes "distinct (map ch (transitions st))" "t \<in> set (transitions st)"
  shows "findTransition st (ch t) = Some t"
proof (cases "findTransition st (ch t)")
  case None
  with assms(2) show ?thesis by (auto simp: findTransition_None)
next
  case (Some t')
  then have "t' \<in> set (transitions st)" "ch t' = ch t" using findTransition_Some by auto
  with assms have "t' = t" by (auto intro: distinct_map_eq)
  with Some show ?thesis by simp
qed

lemma path_walk:
  assumes tr: "trie h P"
  shows "a < length (states h) \<Longrightarrow> walk h 0 (P a) = Some a"
proof (induction "length (P a)" arbitrary: a rule: less_induct)
  case less
  from tr have n0: "0 < length (states h)" and P0: "P 0 = []" by (auto simp: trie_def)
  show ?case
  proof (cases "a = 0")
    case True
    with n0 P0 show ?thesis by simp
  next
    case False
    with tr less.prems obtain p t where
      pt: "p < length (states h)" "t \<in> set (trans_of h p)" "dest t = a"
      unfolding trie_def by blast
    with tr have Pa: "P a = P p @ [ch t]" and dt: "distinct (map ch (trans_of h p))"
      unfolding trie_def by blast+
    then have "length (P p) < length (P a)" by simp
    from less.hyps[OF this pt(1)] have wp: "walk h 0 (P p) = Some p" .
    have "findTransition (states h ! p) (ch t) = Some t"
      using findTransition_in[of "states h ! p" t] dt pt(2) by (simp add: trans_of_def)
    then have "walk h p [ch t] = Some a"
      using pt less.prems by (simp add: getState_def)
    with wp Pa show ?thesis by (simp add: walk_append)
  qed
qed

lemma walk_iff_path:
  assumes tr: "trie h P"
  shows "walk h 0 w = Some a \<longleftrightarrow> a < length (states h) \<and> P a = w"
proof
  assume "walk h 0 w = Some a"
  moreover from tr have "0 < length (states h)" "P 0 = []" by (auto simp: trie_def)
  ultimately show "a < length (states h) \<and> P a = w"
    using walk_path[OF tr, of 0 w a] by simp
next
  assume "a < length (states h) \<and> P a = w"
  then show "walk h 0 w = Some a" using path_walk[OF tr, of a] by auto
qed

lemma walk_defined_iff:
  assumes tr: "trie h P"
  shows "walk h 0 w \<noteq> None \<longleftrightarrow> w \<in> paths h P"
proof -
  have "walk h 0 w \<noteq> None \<longleftrightarrow> (\<exists>a. walk h 0 w = Some a)" by auto
  also have "\<dots> \<longleftrightarrow> (\<exists>a. a < length (states h) \<and> P a = w)"
    by (simp add: walk_iff_path[OF tr])
  also have "\<dots> \<longleftrightarrow> w \<in> paths h P" by (auto simp: paths_def)
  finally show ?thesis .
qed

lemma forResults_seg:
  "seg h p ks q \<Longrightarrow>
   forResults h f p acc = fold_opt f (map (\<lambda>k. rnodes h ! k) ks) acc \<bind> forResults h f q"
proof (induction ks arbitrary: p acc)
  case Nil
  then show ?case by simp
next
  case (Cons k ks)
  then have p: "p = Some k" "k < length (rnodes h)" "seg h (next_r (rnodes h ! k)) ks q" by auto
  show ?case
  proof (cases "f acc (rnodes h ! k)")
    case None
    then show ?thesis using p by (subst forResults.simps) (simp add: getResult_def)
  next
    case (Some acc1)
    have "forResults h f p acc = forResults h f (next_r (rnodes h ! k)) acc1"
      using p Some by (subst forResults.simps) (simp add: getResult_def)
    with Cons.IH[OF p(3), of acc1] Some show ?thesis by simp
  qed
qed

lemma forResults_None: "forResults h f None acc = Some acc"
  by (subst forResults.simps) simp

lemma forResults_seg_None:
  assumes "seg h p ks None"
  shows "forResults h f p acc = fold_opt f (map (\<lambda>k. rnodes h ! k) ks) acc"
proof -
  have "forResults h f None = Some" by (rule ext) (simp add: forResults_None)
  then show ?thesis
    using forResults_seg[OF assms, of f acc]
    by (cases "fold_opt f (map (\<lambda>k. rnodes h ! k) ks) acc") simp_all
qed

lemma fold_opt_collect:
  "fold_opt (\<lambda>acc n. Some (acc @ [g n])) xs acc = Some (acc @ map g xs)"
  by (induction xs arbitrary: acc) auto

lemma resultList_seg:
  "seg h p ks None \<Longrightarrow> resultList h p = Some (map (\<lambda>k. rec_of (rnodes h ! k)) ks)"
proof -
  assume s: "seg h p ks None"
  have "resultList h p = forResults h (\<lambda>acc n. Some (acc @ [rec_of n])) p []"
    by (simp add: resultList_def rec_of_def)
  also have "\<dots> = fold_opt (\<lambda>acc n. Some (acc @ [rec_of n])) (map (\<lambda>k. rnodes h ! k) ks) []"
    by (rule forResults_seg_None[OF s])
  also have "\<dots> = Some ([] @ map rec_of (map (\<lambda>k. rnodes h ! k) ks))"
    by (rule fold_opt_collect)
  finally show ?thesis by (simp add: comp_def)
qed

lemma full_seg:
  assumes ai: "auto_inv h P KS ws D"
  shows "a \<in> D \<Longrightarrow> \<exists>ks. full h KS a ks \<and> seg h (res h a) ks None"
proof (induction "length (P a)" arbitrary: a rule: less_induct)
  case less
  from ai have cl: "closed h KS" and DS: "D \<subseteq> {..<length (states h)}" and fb0: "fb h 0 = None"
    by (auto simp: auto_inv_def)
  from less.prems DS have an: "a < length (states h)" by auto
  with cl have sg: "seg h (res h a) (KS a) (case fb h a of None \<Rightarrow> None | Some f \<Rightarrow> res h f)"
    unfolding closed_def by blast
  show ?case
  proof (cases "a = 0")
    case True
    with sg fb0 have "seg h (res h a) (KS a) None" by simp
    moreover have "full h KS a (KS a)" using True fb0 by (auto intro: full_root)
    ultimately show ?thesis by blast
  next
    case False
    from auto_inv_fb[OF ai less.prems False] obtain f where
      f: "f \<in> D" "fb h a = Some f" "length (P f) < length (P a)" by blast
    from less.hyps[OF f(3) f(1)] obtain ks where
      ks: "full h KS f ks" "seg h (res h f) ks None" by blast
    from sg f(2) have "seg h (res h a) (KS a) (res h f)" by simp
    with ks(2) have "seg h (res h a) (KS a @ ks) None" by (auto simp: seg_append)
    moreover have "full h KS a (KS a @ ks)" using f(2) ks(1) by (rule full_step)
    ultimately show ?thesis by blast
  qed
qed

lemma pipeline_inv:
  assumes b: "buildForestFromPattern pat = Some (h0, root)"
    and c: "forestIntoStateMachine h0 root = Some h"
  shows "root = 0 \<and> (\<exists>P KS. forest_inv h0 P KS (inserted pat) \<and>
     auto_inv h P KS (inserted pat) {..<length (states h)} \<and>
     length (states h) = length (states h0))"
proof -
  from buildForest_inv[of pat] b obtain P KS where
    1: "root = 0" "forest_inv h0 P KS (inserted pat)" by auto
  from forestIntoStateMachine_inv[OF 1(2)] c 1(1) have
    "auto_inv h P KS (inserted pat) {..<length (states h)} \<and> length (states h) = length (states h0)"
    by auto
  with 1 show ?thesis by blast
qed

lemma pipeline_total:
  "\<exists>h0 h. buildForestFromPattern pat = Some (h0, 0) \<and> forestIntoStateMachine h0 0 = Some h"
proof -
  from buildForest_inv[of pat] obtain h0 P KS where
    1: "buildForestFromPattern pat = Some (h0, 0)" "forest_inv h0 P KS (inserted pat)" by blast
  from forestIntoStateMachine_inv[OF 1(2)] 1(1) show ?thesis by blast
qed

subsection \<open>Size arithmetic and one result record\<close>

text \<open>Under the invariants of the pattern \<open>processResult\<close> computes in both modes what unbounded arithmetic gives.\<close>

lemma wrap_sub_exact:
  fixes a b M :: nat
  assumes "b \<le> a" "a < M"
  shows "(a + (M - b mod M)) mod M = a - b"
proof -
  from assms have "b mod M = b" by simp
  moreover from assms have "a + (M - b) = (a - b) + M" by simp
  moreover from assms have "(a - b) mod M = a - b" by simp
  ultimately show ?thesis by (simp only: mod_add_self2)
qed

lemma size_sub_exact: "b \<le> a \<Longrightarrow> a < 2 ^ 64 \<Longrightarrow> size_sub m a b = Some (a - b)"
proof (cases m)
  case Wrapping
  assume ba: "b \<le> a" and a: "a < 2 ^ 64"
  from wrap_sub_exact[OF this] Wrapping show ?thesis by (simp only: size_sub_def arith.case)
next
  case Checked
  assume "b \<le> a" "a < 2 ^ 64"
  then show ?thesis using Checked by (simp add: size_sub_def)
qed

lemma size_add_exact: "a + b < 2 ^ 64 \<Longrightarrow> size_add a b = a + b"
  by (simp add: size_add_def)

lemma toff_bound:
  assumes ok: "pattern_ok pat" and v: "valid_rec pat r"
  shows "toff pat r < length_p pat"
proof (cases "length (parts pat) \<le> fst r")
  case True
  with v have "fst r - length (parts pat) < length (complement pat)" by (auto simp: valid_rec_def)
  then have "complement pat ! (fst r - length (parts pat)) \<in> set (complement pat)" by simp
  with ok True show ?thesis by (simp add: pattern_ok_def toff_def)
next
  case False
  then have lt: "fst r < length (parts pat)" by simp
  then have "parts pat ! fst r \<in> set (parts pat)" by simp
  with ok have "chars (parts pat ! fst r) \<noteq> []"
    "offset (parts pat ! fst r) + length (chars (parts pat ! fst r)) \<le> length_p pat"
    by (auto simp: pattern_ok_def)
  moreover from v lt have "snd r = length (chars (parts pat ! fst r))" by (simp add: valid_rec_def)
  ultimately show ?thesis using False by (cases "chars (parts pat ! fst r)") (auto simp: toff_def)
qed

lemma totalOff_sem:
  assumes ok: "pattern_ok pat" and f: "length_p pat < 2 ^ 64"
    "length (parts pat) + length (complement pat) < 2 ^ 64"
    and v: "valid_rec pat (rec_of r)"
  shows "totalOff m pat (length (parts pat)) r = Some (toff pat (rec_of r))"
proof (cases "length (parts pat) \<le> pat_idx r")
  case True
  with v have lt: "pat_idx r - length (parts pat) < length (complement pat)"
    and "pat_idx r < 2 ^ 64" using f by (auto simp: valid_rec_def rec_of_def)
  with True have "size_sub m (pat_idx r) (length (parts pat)) = Some (pat_idx r - length (parts pat))"
    by (intro size_sub_exact)
  with True lt show ?thesis by (simp add: totalOff_def toff_def rec_of_def vec_get_def)
next
  case False
  then have lt: "pat_idx r < length (parts pat)" by simp
  then have "parts pat ! pat_idx r \<in> set (parts pat)" by simp
  with ok have ne: "chars (parts pat ! pat_idx r) \<noteq> []"
    and le: "offset (parts pat ! pat_idx r) + length (chars (parts pat ! pat_idx r)) \<le> length_p pat"
    by (auto simp: pattern_ok_def)
  from v lt have len: "length_r r = length (chars (parts pat ! pat_idx r))"
    by (simp add: valid_rec_def rec_of_def)
  have sum: "offset (parts pat ! pat_idx r) + length_r r < 2 ^ 64" using le len f by simp
  have "1 \<le> offset (parts pat ! pat_idx r) + length_r r" using ne len
    by (cases "chars (parts pat ! pat_idx r)") auto
  with sum have "size_sub m (offset (parts pat ! pat_idx r) + length_r r) 1 =
      Some (offset (parts pat ! pat_idx r) + length_r r - 1)" by (intro size_sub_exact)
  with False lt sum show ?thesis
    by (simp add: totalOff_def toff_def rec_of_def vec_get_def size_add_exact)
qed

lemma processResult_sem:
  assumes ok: "pattern_ok pat" and fi: "length str + length_p pat < 2 ^ 64"
    "length (parts pat) + length (complement pat) < 2 ^ 64"
    and v: "valid_rec pat (rec_of r)"
    and i: "i < length str" and ms: "ms < length_p pat"
    and lp: "length pm = length_p pat" and ld: "length dis = length_p pat"
  shows "processResult m pat (length (parts pat)) (length str) i ms (pm, dis) r =
         Some (process_spec pat (length str) i ms (pm, dis) (rec_of r))"
proof -
  let ?L = "length_p pat" and ?t = "toff pat (rec_of r)"
  let ?x = "(?L + ms - ?t) mod ?L"
  from ok have L0: "0 < ?L" by (simp add: pattern_ok_def)
  from fi have Lb: "?L < 2 ^ 64" by simp
  have to: "totalOff m pat (length (parts pat)) r = Some ?t"
    by (rule totalOff_sem[OF ok Lb fi(2) v])
  have tb: "?t < ?L" by (rule toff_bound[OF ok v])
  have xb: "?x < ?L" using L0 by simp
  show ?thesis
  proof (cases "i < ?t")
    case True
    then show ?thesis using to by (simp add: processResult_def process_spec_def hits_def Let_def)
  next
    case False
    then have ti: "?t \<le> i" by simp
    have s1: "size_sub m i ?t = Some (i - ?t)" using ti i fi by (intro size_sub_exact) auto
    have a1: "size_add (i - ?t) ?L = i - ?t + ?L" using i fi by (intro size_add_exact) auto
    show ?thesis
    proof (cases "i - ?t + ?L > length str")
      case True
      then show ?thesis using to False s1 a1
        by (simp add: processResult_def process_spec_def hits_def Let_def)
    next
      case F2: False
      then have "?L \<le> length str" by simp
      with ms fi have "?L + ms < 2 ^ 64" by simp
      then have a2: "size_add ?L ms = ?L + ms" by (rule size_add_exact)
      have s2: "size_sub m (?L + ms) ?t = Some (?L + ms - ?t)"
        using tb \<open>?L + ms < 2 ^ 64\<close> by (intro size_sub_exact) auto
      have md: "size_mod (?L + ms - ?t) ?L = Some ?x" using L0 by (simp add: size_mod_def)
      have h: "hits pat (length str) i ms ?x (rec_of r)" using ti F2 by (simp add: hits_def)
      have pre: "processResult m pat (length (parts pat)) (length str) i ms (pm, dis) r =
          (if pat_idx r \<ge> length (parts pat) then do {
             disabled1 \<leftarrow> vec_set dis ?x True;
             Some (pm, disabled1)
           } else do {
             d \<leftarrow> vec_get dis ?x;
             if \<not> d then do {
               v \<leftarrow> vec_get pm ?x;
               partial_matches1 \<leftarrow> vec_set pm ?x (size_add v 1);
               Some (partial_matches1, dis)
             } else Some (pm, dis)
           })"
        using to False s1 a1 F2 a2 s2 md by (simp add: processResult_def)
      show ?thesis
        unfolding pre using h xb lp ld
        by (simp add: process_spec_def Let_def vec_set_def vec_get_def rec_of_def size_add_def)
    qed
  qed
qed

subsection \<open>All result records of a position\<close>

text \<open>The effect of the loop over the records on one slot.\<close>

lemma process_spec_length:
  "length (fst (process_spec pat sl i ms pd r)) = length (fst pd) \<and>
   length (snd (process_spec pat sl i ms pd r)) = length (snd pd)"
  by (simp add: process_spec_def Let_def)

lemma process_spec_slot:
  assumes L: "0 < length_p pat" and lp: "length pm = length_p pat"
    and ld: "length dis = length_p pat" and x: "x < length_p pat"
  shows "snd (process_spec pat sl i ms (pm, dis) r) ! x =
           (dis ! x \<or> (length (parts pat) \<le> fst r \<and> hits pat sl i ms x r))"
    and "\<not> dis ! x \<Longrightarrow> fst (process_spec pat sl i ms (pm, dis) r) ! x =
           (if fst r < length (parts pat) \<and> hits pat sl i ms x r
            then (pm ! x + 1) mod 2 ^ 64 else pm ! x)"
    and "pm ! x < 2 ^ 64 \<Longrightarrow> fst (process_spec pat sl i ms (pm, dis) r) ! x < 2 ^ 64"
proof -
  let ?xr = "(length_p pat + ms - toff pat r) mod length_p pat"
  have xr: "?xr < length_p pat" using L by simp
  show "snd (process_spec pat sl i ms (pm, dis) r) ! x =
           (dis ! x \<or> (length (parts pat) \<le> fst r \<and> hits pat sl i ms x r))"
    using xr x ld by (auto simp: process_spec_def hits_def Let_def nth_list_update)
  assume "\<not> dis ! x"
  then show "fst (process_spec pat sl i ms (pm, dis) r) ! x =
           (if fst r < length (parts pat) \<and> hits pat sl i ms x r
            then (pm ! x + 1) mod 2 ^ 64 else pm ! x)"
    using xr x lp by (auto simp: process_spec_def hits_def Let_def nth_list_update)
next
  assume "pm ! x < 2 ^ 64"
  then show "fst (process_spec pat sl i ms (pm, dis) r) ! x < 2 ^ 64"
    using x lp by (simp add: process_spec_def Let_def nth_list_update)
qed

lemma fold_process_spec:
  assumes L: "0 < length_p pat" and x: "x < length_p pat"
  shows "length pm = length_p pat \<Longrightarrow> length dis = length_p pat \<Longrightarrow> pm ! x < 2 ^ 64 \<Longrightarrow>
    (case fold (\<lambda>r pd. process_spec pat sl i ms pd r) rs (pm, dis) of
       (pm', dis') \<Rightarrow>
         length pm' = length_p pat \<and> length dis' = length_p pat \<and> pm' ! x < 2 ^ 64 \<and>
         (dis' ! x \<longleftrightarrow> dis ! x \<or> (\<exists>r \<in> set rs. length (parts pat) \<le> fst r \<and> hits pat sl i ms x r)) \<and>
         (\<not> dis' ! x \<longrightarrow> pm' ! x =
            (pm ! x + length (filter (\<lambda>r. fst r < length (parts pat) \<and> hits pat sl i ms x r) rs))
              mod 2 ^ 64))"
proof (induction rs arbitrary: pm dis)
  case Nil
  then show ?case by simp
next
  case (Cons r rs)
  obtain pm1 dis1 where pd1: "process_spec pat sl i ms (pm, dis) r = (pm1, dis1)"
    by (cases "process_spec pat sl i ms (pm, dis) r")
  from process_spec_length[of pat sl i ms "(pm, dis)" r] pd1 Cons.prems
  have l1: "length pm1 = length_p pat" "length dis1 = length_p pat" by auto
  from process_spec_slot(1)[OF L Cons.prems(1,2) x, of sl i ms r] pd1
  have d1: "dis1 ! x = (dis ! x \<or> (length (parts pat) \<le> fst r \<and> hits pat sl i ms x r))" by simp
  have p1: "\<not> dis ! x \<Longrightarrow> pm1 ! x =
           (if fst r < length (parts pat) \<and> hits pat sl i ms x r
            then (pm ! x + 1) mod 2 ^ 64 else pm ! x)"
    using process_spec_slot(2)[OF L Cons.prems(1,2) x, of sl i ms r] pd1 by simp
  have b1: "pm1 ! x < 2 ^ 64"
    using process_spec_slot(3)[OF L Cons.prems(1,2) x Cons.prems(3), of sl i ms r] pd1 by simp
  obtain pm' dis' where f: "fold (\<lambda>r pd. process_spec pat sl i ms pd r) rs (pm1, dis1) = (pm', dis')"
    by (cases "fold (\<lambda>r pd. process_spec pat sl i ms pd r) rs (pm1, dis1)")
  from Cons.IH[OF l1 b1] f have
    ih: "length pm' = length_p pat" "length dis' = length_p pat"
      "pm' ! x < 2 ^ 64"
      "dis' ! x \<longleftrightarrow> dis1 ! x \<or> (\<exists>r \<in> set rs. length (parts pat) \<le> fst r \<and> hits pat sl i ms x r)"
      "\<not> dis' ! x \<Longrightarrow> pm' ! x =
        (pm1 ! x + length (filter (\<lambda>r. fst r < length (parts pat) \<and> hits pat sl i ms x r) rs))
              mod 2 ^ 64"
    by auto
  have A: "dis' ! x \<longleftrightarrow> dis ! x \<or> (\<exists>r \<in> set (r # rs). length (parts pat) \<le> fst r \<and> hits pat sl i ms x r)"
    using ih(4) d1 by auto
  have B: "\<not> dis' ! x \<Longrightarrow> pm' ! x =
        (pm ! x + length (filter (\<lambda>r. fst r < length (parts pat) \<and> hits pat sl i ms x r) (r # rs)))
              mod 2 ^ 64"
  proof -
    assume nd: "\<not> dis' ! x"
    with ih(4) d1 have "\<not> dis ! x" by auto
    from p1[OF this] ih(5)[OF nd] show ?thesis
      by (auto simp: mod_add_left_eq mod_Suc_eq)
  qed
  have "fold (\<lambda>r pd. process_spec pat sl i ms pd r) (r # rs) (pm, dis) = (pm', dis')"
    using pd1 f by simp
  with ih(1,2,3) A B show ?case by (simp only: prod.case) blast
qed

lemma fold_opt_process:
  assumes ok: "pattern_ok pat" and fi: "length str + length_p pat < 2 ^ 64"
    "length (parts pat) + length (complement pat) < 2 ^ 64"
    and i: "i < length str" and ms: "ms < length_p pat"
  shows "\<forall>r \<in> set R. valid_rec pat (rec_of r) \<Longrightarrow>
    length pm = length_p pat \<Longrightarrow> length dis = length_p pat \<Longrightarrow>
    fold_opt (processResult m pat (length (parts pat)) (length str) i ms) R (pm, dis) =
      Some (fold (\<lambda>r pd. process_spec pat (length str) i ms pd r) (map rec_of R) (pm, dis))"
proof (induction R arbitrary: pm dis)
  case Nil
  then show ?case by simp
next
  case (Cons r R)
  obtain pm1 dis1 where pd1: "process_spec pat (length str) i ms (pm, dis) (rec_of r) = (pm1, dis1)"
    by (cases "process_spec pat (length str) i ms (pm, dis) (rec_of r)")
  from process_spec_length[of pat "length str" i ms "(pm, dis)" "rec_of r"] pd1 Cons.prems
  have l1: "length pm1 = length_p pat" "length dis1 = length_p pat" by auto
  have v: "valid_rec pat (rec_of r)" using Cons.prems by simp
  have "processResult m pat (length (parts pat)) (length str) i ms (pm, dis) r = Some (pm1, dis1)"
    using processResult_sem[OF ok fi v i ms Cons.prems(2,3)] pd1 by simp
  moreover have "fold_opt (processResult m pat (length (parts pat)) (length str) i ms) R (pm1, dis1) =
      Some (fold (\<lambda>r pd. process_spec pat (length str) i ms pd r) (map rec_of R) (pm1, dis1))"
    using Cons.IH[OF _ l1] Cons.prems(1) by simp
  ultimately show ?case using pd1 by simp
qed

subsection \<open>The records of a state\<close>

text \<open>The list of a state holds one record for each inserted string that is a suffix of its path.\<close>

lemma length_filter_disj:
  "(\<And>x. x \<in> set xs \<Longrightarrow> \<not> (A x \<and> B x)) \<Longrightarrow>
   length (filter A xs) + length (filter B xs) = length (filter (\<lambda>x. A x \<or> B x) xs)"
  by (induction xs) auto

lemma length_filter_cong:
  "(\<And>x. x \<in> set xs \<Longrightarrow> A x = B x) \<Longrightarrow> length (filter A xs) = length (filter B xs)"
  by (induction xs) auto

lemma own_count:
  assumes ct: "content h P KS ws" and a: "a < length (states h)"
  shows "length (filter Q (map (\<lambda>k. rec_of (rnodes h ! k)) (KS a))) =
         length (filter (\<lambda>j. ws ! j = P a \<and> Q (j, length (ws ! j))) [0..<length ws])"
proof -
  from ct a have "map (\<lambda>k. rec_of (rnodes h ! k)) (KS a) =
      map (\<lambda>j. (j, length (ws ! j))) (filter (\<lambda>j. ws ! j = P a) [0..<length ws])"
    by (simp add: content_def)
  then have "length (filter Q (map (\<lambda>k. rec_of (rnodes h ! k)) (KS a))) =
      length (filter Q (map (\<lambda>j. (j, length (ws ! j))) (filter (\<lambda>j. ws ! j = P a) [0..<length ws])))"
    by simp
  also have "\<dots> = length (filter (\<lambda>j. ws ! j = P a \<and> Q (j, length (ws ! j))) [0..<length ws])"
    by (simp add: filter_map comp_def)
  finally show ?thesis .
qed

lemma full_count:
  "full h KS a ks \<Longrightarrow> auto_inv h P KS ws D \<Longrightarrow> a \<in> D \<Longrightarrow>
     length (filter Q (map (\<lambda>k. rec_of (rnodes h ! k)) ks)) =
     length (filter (\<lambda>j. suffix (ws ! j) (P a) \<and> Q (j, length (ws ! j))) [0..<length ws])"
proof (induction rule: full.induct)
  case (full_root h a KS)
  have ai: "auto_inv h P KS ws D" and aD: "a \<in> D" and fbn: "fb h a = None"
    using full_root by auto
  have a0: "a = 0"
  proof (rule ccontr)
    assume "a \<noteq> 0"
    from auto_inv_fb[OF ai aD this] fbn show False by auto
  qed
  from ai have tr: "trie h P" and ct: "content h P KS ws" and DS: "D \<subseteq> {..<length (states h)}"
    by (auto simp: auto_inv_def)
  from tr a0 have Pa: "P a = []" by (simp add: trie_def)
  from aD DS have an: "a < length (states h)" by auto
  show ?case using own_count[OF ct an, of Q] Pa by simp
next
  case (full_step h a f KS ks)
  have ai: "auto_inv h P KS ws D" and aD: "a \<in> D" using full_step.prems by auto
  from ai have ct: "content h P KS ws" and DS: "D \<subseteq> {..<length (states h)}"
    and fb0: "fb h 0 = None"
    by (auto simp: auto_inv_def)
  from aD DS have an: "a < length (states h)" by auto
  have a0: "a \<noteq> 0" using full_step.hyps(1) fb0 by (metis option.distinct(1))
  from auto_inv_fb[OF ai aD a0] full_step.hyps(1) have
    fD: "f \<in> D" and lp: "lps_of (paths h P) (P a) (P f)" and lt: "length (P f) < length (P a)"
    by auto
  have ih: "length (filter Q (map (\<lambda>k. rec_of (rnodes h ! k)) ks)) =
     length (filter (\<lambda>j. suffix (ws ! j) (P f) \<and> Q (j, length (ws ! j))) [0..<length ws])"
    using full_step.IH[OF ai fD] .
  have sfa: "suffix (P f) (P a)" using lp by (simp add: lps_of_def strict_suffix_def)
  have inW: "\<And>j. j < length ws \<Longrightarrow> ws ! j \<in> paths h P" using ct by (simp add: content_def)
  have split: "\<And>j. j \<in> set [0..<length ws] \<Longrightarrow>
      (suffix (ws ! j) (P a) \<and> Q (j, length (ws ! j))) =
      ((ws ! j = P a \<and> Q (j, length (ws ! j))) \<or> (suffix (ws ! j) (P f) \<and> Q (j, length (ws ! j))))"
  proof -
    fix j assume "j \<in> set [0..<length ws]"
    then have j: "j < length ws" by simp
    have "suffix (ws ! j) (P a) \<longleftrightarrow> ws ! j = P a \<or> suffix (ws ! j) (P f)"
    proof
      assume s: "suffix (ws ! j) (P a)"
      show "ws ! j = P a \<or> suffix (ws ! j) (P f)"
      proof (cases "ws ! j = P a")
        case False
        with s have "strict_suffix (ws ! j) (P a)" by (simp add: strict_suffix_def)
        from lps_of_suffix[OF lp this inW[OF j]] show ?thesis by simp
      qed simp
    next
      assume "ws ! j = P a \<or> suffix (ws ! j) (P f)"
      then show "suffix (ws ! j) (P a)" using sfa by (auto intro: suffix_order.trans)
    qed
    then show "(suffix (ws ! j) (P a) \<and> Q (j, length (ws ! j))) =
      ((ws ! j = P a \<and> Q (j, length (ws ! j))) \<or> (suffix (ws ! j) (P f) \<and> Q (j, length (ws ! j))))"
      by auto
  qed
  have excl: "\<And>j. j \<in> set [0..<length ws] \<Longrightarrow>
      \<not> ((ws ! j = P a \<and> Q (j, length (ws ! j))) \<and> (suffix (ws ! j) (P f) \<and> Q (j, length (ws ! j))))"
  proof
    fix j assume "(ws ! j = P a \<and> Q (j, length (ws ! j))) \<and> (suffix (ws ! j) (P f) \<and> Q (j, length (ws ! j)))"
    then have "suffix (P a) (P f)" by metis
    then have "length (P a) \<le> length (P f)" by (rule suffix_length_le)
    with lt show False by simp
  qed
  have "length (filter Q (map (\<lambda>k. rec_of (rnodes h ! k)) (KS a @ ks))) =
      length (filter (\<lambda>j. ws ! j = P a \<and> Q (j, length (ws ! j))) [0..<length ws]) +
      length (filter (\<lambda>j. suffix (ws ! j) (P f) \<and> Q (j, length (ws ! j))) [0..<length ws])"
    using own_count[OF ct an, of Q] ih by simp
  also have "\<dots> = length (filter (\<lambda>j. (ws ! j = P a \<and> Q (j, length (ws ! j))) \<or>
        (suffix (ws ! j) (P f) \<and> Q (j, length (ws ! j)))) [0..<length ws])"
    by (rule length_filter_disj[OF excl])
  also have "\<dots> = length (filter (\<lambda>j. suffix (ws ! j) (P a) \<and> Q (j, length (ws ! j))) [0..<length ws])"
    by (rule length_filter_cong[OF split[symmetric]])
  finally show ?case .
qed

lemma state_records:
  assumes ai: "auto_inv h P KS ws {..<length (states h)}"
    and ne: "\<And>j. j < length ws \<Longrightarrow> ws ! j \<noteq> []"
    and a: "a < length (states h)" and ls: "ls_of (paths h P) T (P a)"
  shows "\<exists>R. (\<forall>f acc. (if a = 0 then Some acc else forResults h f (res h a) acc) = fold_opt f R acc) \<and>
     (\<forall>Q. length (filter Q (map rec_of R)) =
          length (filter (\<lambda>j. suffix (ws ! j) T \<and> Q (j, length (ws ! j))) [0..<length ws]))"
proof -
  from ai have tr: "trie h P" and ct: "content h P KS ws" by (auto simp: auto_inv_def)
  have aD: "a \<in> {..<length (states h)}" using a by simp
  from full_seg[OF ai aD] obtain ks where ks: "full h KS a ks" "seg h (res h a) ks None" by blast
  let ?R = "map (\<lambda>k. rnodes h ! k) ks"
  have inW: "\<And>j. j < length ws \<Longrightarrow> ws ! j \<in> paths h P" using ct by (simp add: content_def)
  have sfx: "\<And>j. j \<in> set [0..<length ws] \<Longrightarrow> suffix (ws ! j) (P a) = suffix (ws ! j) T"
  proof -
    fix j assume "j \<in> set [0..<length ws]"
    then have j: "j < length ws" by simp
    show "suffix (ws ! j) (P a) = suffix (ws ! j) T"
    proof
      assume "suffix (ws ! j) (P a)"
      moreover from ls have "suffix (P a) T" by (simp add: ls_of_def)
      ultimately show "suffix (ws ! j) T" by (rule suffix_order.trans)
    next
      assume "suffix (ws ! j) T"
      from ls_of_suffix[OF ls this inW[OF j]] show "suffix (ws ! j) (P a)" .
    qed
  qed
  have cnt: "\<And>Q. length (filter Q (map rec_of ?R)) =
          length (filter (\<lambda>j. suffix (ws ! j) T \<and> Q (j, length (ws ! j))) [0..<length ws])"
  proof -
    fix Q
    have "length (filter Q (map rec_of ?R)) =
        length (filter (\<lambda>j. suffix (ws ! j) (P a) \<and> Q (j, length (ws ! j))) [0..<length ws])"
      using full_count[OF ks(1) ai aD, of Q] by (simp add: comp_def)
    also have "\<dots> = length (filter (\<lambda>j. suffix (ws ! j) T \<and> Q (j, length (ws ! j))) [0..<length ws])"
      by (rule length_filter_cong) (simp add: sfx)
    finally show "length (filter Q (map rec_of ?R)) =
          length (filter (\<lambda>j. suffix (ws ! j) T \<and> Q (j, length (ws ! j))) [0..<length ws])" .
  qed
  have run: "\<And>f acc. (if a = 0 then Some acc else forResults h f (res h a) acc) = fold_opt f ?R acc"
  proof -
    fix f acc
    show "(if a = 0 then Some acc else forResults h f (res h a) acc) = fold_opt f ?R acc"
    proof (cases "a = 0")
      case False
      then show ?thesis using forResults_seg_None[OF ks(2)] by simp
    next
      case True
      with tr have Pa: "P a = []" by (simp add: trie_def)
      have "length (filter (\<lambda>_. True) (map rec_of ?R)) =
          length (filter (\<lambda>j. suffix (ws ! j) (P a) \<and> True) [0..<length ws])"
        using full_count[OF ks(1) ai aD, of "\<lambda>_. True"] by (simp add: comp_def)
      also have "\<dots> = 0" using Pa ne by (auto simp: filter_empty_conv)
      finally have "?R = []" by simp
      with True show ?thesis by simp
    qed
  qed
  have "(\<forall>f acc. (if a = 0 then Some acc else forResults h f (res h a) acc) = fold_opt f ?R acc) \<and>
     (\<forall>Q. length (filter Q (map rec_of ?R)) =
          length (filter (\<lambda>j. suffix (ws ! j) T \<and> Q (j, length (ws ! j))) [0..<length ws]))"
  proof (intro conjI allI)
    fix f :: "'b \<Rightarrow> Result \<Rightarrow> 'b option" and acc
    show "(if a = 0 then Some acc else forResults h f (res h a) acc) = fold_opt f ?R acc"
      by (rule run)
  next
    fix Q
    show "length (filter Q (map rec_of ?R)) =
          length (filter (\<lambda>j. suffix (ws ! j) T \<and> Q (j, length (ws ! j))) [0..<length ws])"
      by (rule cnt)
  qed
  then show ?thesis by (rule exI)
qed

subsection \<open>Windows, suffixes and counting\<close>

text \<open>Slots of candidates in flight are distinct; suffixes of a prefix of the text.\<close>

lemma window_unique:
  fixes a b L :: nat
  assumes "a mod L = b mod L" "a \<le> b" "b < a + L"
  shows "a = b"
proof -
  from assms(1) have "b mod L = a mod L" by simp
  with assms(2) have "L dvd b - a" using mod_eq_dvd_iff_nat[of a b L] by simp
  moreover have "b - a < L" using assms by simp
  ultimately have "b - a = 0" by (meson dvd_imp_le not_less zero_less_iff_neq_zero)
  with assms(2) show ?thesis by simp
qed

lemma mod_succ:
  fixes i L :: nat
  shows "(if i mod L + 1 = L then 0 else i mod L + 1) = (i + 1) mod L"
  by (simp add: mod_Suc)

lemma mod_shift:
  fixes i t L :: nat
  assumes "t < L" "t \<le> i"
  shows "(L + i mod L - t) mod L = (i - t) mod L"
proof -
  let ?Z = "L + i - t" and ?X = "L + i mod L - t"
  have "?Z = L + (i - t)" using assms by simp
  then have 1: "?Z mod L = (i - t) mod L" by simp
  have "i mod L \<le> i" by simp
  then have le: "?X \<le> ?Z" by (intro diff_le_mono add_left_mono)
  have "?Z - ?X = i - i mod L" using assms by simp
  also have "\<dots> = L * (i div L)" by (simp add: minus_mod_eq_mult_div)
  finally have "L dvd ?Z - ?X" by simp
  with le have "?Z mod L = ?X mod L" using mod_eq_dvd_iff_nat[of ?X ?Z L] by simp
  with 1 show ?thesis by simp
qed

lemma hits_window:
  assumes tb: "toff pat r < length_p pat"
    and s: "s \<le> i" "i < s + length_p pat" "s + length_p pat \<le> sl"
  shows "hits pat sl i (i mod length_p pat) (s mod length_p pat) r \<longleftrightarrow> toff pat r + s = i"
proof
  let ?L = "length_p pat" and ?t = "toff pat r"
  assume "hits pat sl i (i mod ?L) (s mod ?L) r"
  then have ti: "?t \<le> i" and m: "(?L + i mod ?L - ?t) mod ?L = s mod ?L"
    by (auto simp: hits_def)
  from m mod_shift[OF tb ti] have e: "(i - ?t) mod ?L = s mod ?L" by simp
  have "i - ?t = s"
  proof (cases "i - ?t \<le> s")
    case True
    have "s < i - ?t + ?L" using tb ti s by simp
    from window_unique[OF e True this] show ?thesis .
  next
    case False
    then have le: "s \<le> i - ?t" by simp
    have "i - ?t < s + ?L" using s by simp
    from window_unique[OF e[symmetric] le this] show ?thesis by simp
  qed
  with ti show "?t + s = i" by simp
next
  let ?L = "length_p pat" and ?t = "toff pat r"
  assume e: "?t + s = i"
  then have ti: "?t \<le> i" and its: "i - ?t = s" by auto
  from mod_shift[OF tb ti] its have "(?L + i mod ?L - ?t) mod ?L = s mod ?L" by simp
  with ti its s show "hits pat sl i (i mod ?L) (s mod ?L) r" by (simp add: hits_def)
qed

lemma suffix_iff_drop:
  "suffix w xs \<longleftrightarrow> length w \<le> length xs \<and> drop (length xs - length w) xs = w"
proof
  assume "suffix w xs"
  then obtain zs where "xs = zs @ w" by (auto simp: suffix_def)
  then show "length w \<le> length xs \<and> drop (length xs - length w) xs = w" by simp
next
  assume "length w \<le> length xs \<and> drop (length xs - length w) xs = w"
  then have "w = drop (length xs - length w) xs" by simp
  then show "suffix w xs" using suffix_drop by metis
qed

lemma suffix_take_iff:
  assumes "Suc i \<le> length str"
  shows "suffix w (take (Suc i) str) \<longleftrightarrow>
         length w \<le> Suc i \<and> take (length w) (drop (Suc i - length w) str) = w"
proof -
  have l: "length (take (Suc i) str) = Suc i" using assms by simp
  have "length w \<le> Suc i \<Longrightarrow>
      drop (Suc i - length w) (take (Suc i) str) = take (length w) (drop (Suc i - length w) str)"
    by (simp add: drop_take)
  then show ?thesis unfolding suffix_iff_drop l by auto
qed

lemma part_matches_suffix:
  assumes "Suc i \<le> length str" "s + offset p + length (chars p) = Suc i"
  shows "part_matches str s p \<longleftrightarrow> suffix (chars p) (take (Suc i) str)"
proof -
  from assms(2) have "Suc i - length (chars p) = s + offset p" "length (chars p) \<le> Suc i" by auto
  then show ?thesis unfolding suffix_take_iff[OF assms(1)] part_matches_def by simp
qed

lemma single_suffix:
  assumes "i < length str"
  shows "suffix [x] (take (Suc i) str) \<longleftrightarrow> str ! i = x"
proof -
  have "drop i str = str ! i # drop (Suc i) str" using assms by (simp add: Cons_nth_drop_Suc)
  then have "take 1 (drop i str) = [str ! i]" by simp
  moreover have "Suc i \<le> length str" using assms by simp
  ultimately show ?thesis unfolding suffix_take_iff[OF \<open>Suc i \<le> length str\<close>] by auto
qed

lemma inserted_length:
  "length (inserted pat) = length (parts pat) + length (complement pat)"
  by (simp add: inserted_def)

lemma inserted_part:
  "j < length (parts pat) \<Longrightarrow> inserted pat ! j = chars (parts pat ! j)"
  by (simp add: inserted_def nth_append)

lemma inserted_complement:
  "length (parts pat) \<le> j \<Longrightarrow> j < length (parts pat) + length (complement pat) \<Longrightarrow>
   inserted pat ! j = [ch_c (complement pat ! (j - length (parts pat)))]"
  by (simp add: inserted_def nth_append)

lemma inserted_nonempty:
  assumes "pattern_ok pat" "j < length (inserted pat)"
  shows "inserted pat ! j \<noteq> []"
proof (cases "j < length (parts pat)")
  case True
  then have "parts pat ! j \<in> set (parts pat)" by simp
  with assms(1) have "chars (parts pat ! j) \<noteq> []" by (simp add: pattern_ok_def)
  with True show ?thesis by (simp add: inserted_part)
next
  case False
  with assms(2) show ?thesis by (simp add: inserted_complement inserted_length)
qed

lemma inserted_valid:
  assumes "j < length (inserted pat)"
  shows "valid_rec pat (j, length (inserted pat ! j))"
  using assms by (simp add: valid_rec_def inserted_length inserted_part)

lemma length_filter_nth:
  "length (filter (\<lambda>j. H (xs ! j)) [0..<length xs]) = length (filter H xs)"
proof -
  have "filter H xs = filter H (map (\<lambda>j. xs ! j) [0..<length xs])" by (simp add: map_nth)
  also have "\<dots> = map (\<lambda>j. xs ! j) (filter (\<lambda>j. H (xs ! j)) [0..<length xs])"
    by (simp add: filter_map comp_def)
  finally have "length (filter H xs) =
      length (map (\<lambda>j. xs ! j) (filter (\<lambda>j. H (xs ! j)) [0..<length xs]))" by (rule arg_cong)
  then show ?thesis by (simp only: length_map)
qed

lemma exists_iff_count: "(\<exists>x \<in> set xs. Q x) \<longleftrightarrow> 0 < length (filter Q xs)"
  by (induction xs) auto

lemma part_count:
  "length (filter (\<lambda>j. j < length (parts pat) \<and> G (parts pat ! j)) [0..<length (inserted pat)]) =
   length (filter G (parts pat))"
proof -
  let ?n = "length (parts pat)" and ?m = "length (complement pat)"
  have "[0..<length (inserted pat)] = [0..<?n] @ [?n..<?n + ?m]"
    using upt_add_eq_append[of 0 ?n ?m] by (simp add: inserted_length)
  moreover have "filter (\<lambda>j. j < ?n \<and> G (parts pat ! j)) [?n..<?n + ?m] = []"
    by (simp add: filter_empty_conv)
  moreover have "filter (\<lambda>j. j < ?n \<and> G (parts pat ! j)) [0..<?n] =
      filter (\<lambda>j. G (parts pat ! j)) [0..<?n]"
    by (rule filter_cong) auto
  ultimately show ?thesis by (simp add: length_filter_nth)
qed

lemma complement_exists:
  "(\<exists>j \<in> set [0..<length (inserted pat)].
      length (parts pat) \<le> j \<and> G (complement pat ! (j - length (parts pat)))) \<longleftrightarrow>
   (\<exists>c \<in> set (complement pat). G c)"
proof
  let ?n = "length (parts pat)"
  assume "\<exists>j \<in> set [0..<length (inserted pat)]. ?n \<le> j \<and> G (complement pat ! (j - ?n))"
  then obtain j where j: "j < ?n + length (complement pat)" "?n \<le> j" "G (complement pat ! (j - ?n))"
    by (auto simp: inserted_length)
  then have "j - ?n < length (complement pat)" by simp
  then have "complement pat ! (j - ?n) \<in> set (complement pat)" by simp
  with j(3) show "\<exists>c \<in> set (complement pat). G c" by blast
next
  let ?n = "length (parts pat)"
  assume "\<exists>c \<in> set (complement pat). G c"
  then obtain k where k: "k < length (complement pat)" "G (complement pat ! k)"
    by (auto simp: in_set_conv_nth)
  then have "?n + k \<in> set [0..<length (inserted pat)]" "?n \<le> ?n + k"
    "G (complement pat ! (?n + k - ?n))" by (auto simp: inserted_length)
  then show "\<exists>j \<in> set [0..<length (inserted pat)]. ?n \<le> j \<and> G (complement pat ! (j - ?n))"
    by blast
qed

subsection \<open>Counting through the inserted strings\<close>

text \<open>Complements that fire and parts that end at a position.\<close>

lemma dis_at_self: "dis_at pat str i i = False"
  by (simp add: dis_at_def)

lemma cnt_at_self:
  assumes "pattern_ok pat"
  shows "cnt_at pat str i i = 0"
proof -
  have "\<And>p. p \<in> set (parts pat) \<Longrightarrow> chars p \<noteq> []"
    using assms by (auto simp: pattern_ok_def)
  then show ?thesis by (auto simp: cnt_at_def filter_empty_conv)
qed

lemma cnt_at_le: "cnt_at pat str s i \<le> length (parts pat)"
  by (simp add: cnt_at_def)

lemma dis_at_Suc:
  "dis_at pat str s (Suc i) \<longleftrightarrow>
     dis_at pat str s i \<or> (\<exists>c \<in> set (complement pat). index c + s = i \<and> str ! i = ch_c c)"
proof -
  have "\<And>c. (s + index c < Suc i \<and> str ! (s + index c) = ch_c c) \<longleftrightarrow>
      (s + index c < i \<and> str ! (s + index c) = ch_c c) \<or> (index c + s = i \<and> str ! i = ch_c c)"
    by (auto simp: less_Suc_eq add.commute)
  then show ?thesis unfolding dis_at_def by blast
qed

lemma cnt_at_Suc:
  assumes ok: "pattern_ok pat" and i: "Suc i \<le> length str"
  shows "cnt_at pat str s (Suc i) = cnt_at pat str s i +
     length (filter (\<lambda>p. suffix (chars p) (take (Suc i) str) \<and>
                          offset p + length (chars p) - 1 + s = i) (parts pat))"
proof -
  let ?A = "\<lambda>p. s + offset p + length (chars p) \<le> i \<and> part_matches str s p"
  let ?B = "\<lambda>p. suffix (chars p) (take (Suc i) str) \<and> offset p + length (chars p) - 1 + s = i"
  have ne: "\<And>p. p \<in> set (parts pat) \<Longrightarrow> 0 < length (chars p)"
    using ok by (auto simp: pattern_ok_def)
  have eq: "\<And>p. p \<in> set (parts pat) \<Longrightarrow>
      (s + offset p + length (chars p) \<le> Suc i \<and> part_matches str s p) = (?A p \<or> ?B p)"
  proof -
    fix p assume p: "p \<in> set (parts pat)"
    have e: "offset p + length (chars p) - 1 + s = i \<longleftrightarrow> s + offset p + length (chars p) = Suc i"
      using ne[OF p] by linarith
    show "(s + offset p + length (chars p) \<le> Suc i \<and> part_matches str s p) = (?A p \<or> ?B p)"
    proof (cases "s + offset p + length (chars p) = Suc i")
      case True
      from part_matches_suffix[OF i True] e True show ?thesis by auto
    next
      case False
      with e show ?thesis by auto
    qed
  qed
  have excl: "\<And>p. p \<in> set (parts pat) \<Longrightarrow> \<not> (?A p \<and> ?B p)"
  proof
    fix p assume p: "p \<in> set (parts pat)" and ab: "?A p \<and> ?B p"
    then have "offset p + length (chars p) - 1 + s = i" "s + offset p + length (chars p) \<le> i" by auto
    with ne[OF p] show False by linarith
  qed
  have "cnt_at pat str s (Suc i) = length (filter (\<lambda>p. ?A p \<or> ?B p) (parts pat))"
    unfolding cnt_at_def by (rule length_filter_cong[OF eq])
  also have "\<dots> = length (filter ?A (parts pat)) + length (filter ?B (parts pat))"
    by (rule length_filter_disj[OF excl, symmetric])
  finally show ?thesis by (simp add: cnt_at_def)
qed

lemma toff_part:
  "j < length (parts pat) \<Longrightarrow>
   toff pat (j, length (inserted pat ! j)) = offset (parts pat ! j) + length (chars (parts pat ! j)) - 1"
  by (simp add: toff_def inserted_part)

lemma toff_complement:
  "length (parts pat) \<le> j \<Longrightarrow>
   toff pat (j, l) = index (complement pat ! (j - length (parts pat)))"
  by (simp add: toff_def)

text \<open>The records seen at position \<open>i\<close>, counted through the inserted strings.\<close>

lemma complement_records:
  assumes i: "i < length str"
    and cnt: "\<And>Q. length (filter Q rs) =
        length (filter (\<lambda>j. suffix (inserted pat ! j) (take (Suc i) str) \<and>
                             Q (j, length (inserted pat ! j))) [0..<length (inserted pat)])"
  shows "(\<exists>r \<in> set rs. length (parts pat) \<le> fst r \<and> toff pat r + s = i) \<longleftrightarrow>
         (\<exists>c \<in> set (complement pat). index c + s = i \<and> str ! i = ch_c c)"
proof -
  let ?n = "length (parts pat)" and ?ws = "inserted pat" and ?T = "take (Suc i) str"
  let ?Q = "\<lambda>r. ?n \<le> fst r \<and> toff pat r + s = i"
  let ?G = "\<lambda>c. suffix [ch_c c] ?T \<and> index c + s = i"
  have "(\<exists>r \<in> set rs. ?Q r) \<longleftrightarrow> 0 < length (filter ?Q rs)" by (rule exists_iff_count)
  also have "\<dots> \<longleftrightarrow> 0 < length (filter (\<lambda>j. suffix (?ws ! j) ?T \<and> ?Q (j, length (?ws ! j))) [0..<length ?ws])"
    by (simp only: cnt)
  also have "\<dots> \<longleftrightarrow> (\<exists>j \<in> set [0..<length ?ws]. suffix (?ws ! j) ?T \<and> ?Q (j, length (?ws ! j)))"
    by (rule exists_iff_count[symmetric])
  also have "\<dots> \<longleftrightarrow> (\<exists>j \<in> set [0..<length ?ws]. ?n \<le> j \<and> ?G (complement pat ! (j - ?n)))"
  proof (rule bex_cong[OF refl])
    fix j assume "j \<in> set [0..<length ?ws]"
    then have j: "j < ?n + length (complement pat)" by (simp add: inserted_length)
    show "(suffix (?ws ! j) ?T \<and> ?Q (j, length (?ws ! j))) = (?n \<le> j \<and> ?G (complement pat ! (j - ?n)))"
    proof (cases "?n \<le> j")
      case True
      from inserted_complement[OF True j] toff_complement[OF True] True show ?thesis by auto
    next
      case False
      then show ?thesis by simp
    qed
  qed
  also have "\<dots> \<longleftrightarrow> (\<exists>c \<in> set (complement pat). ?G c)" by (rule complement_exists)
  also have "\<dots> \<longleftrightarrow> (\<exists>c \<in> set (complement pat). index c + s = i \<and> str ! i = ch_c c)"
    using single_suffix[OF i] by auto
  finally show ?thesis .
qed

lemma part_records:
  assumes cnt: "\<And>Q. length (filter Q rs) =
        length (filter (\<lambda>j. suffix (inserted pat ! j) (take (Suc i) str) \<and>
                             Q (j, length (inserted pat ! j))) [0..<length (inserted pat)])"
  shows "length (filter (\<lambda>r. fst r < length (parts pat) \<and> toff pat r + s = i) rs) =
         length (filter (\<lambda>p. suffix (chars p) (take (Suc i) str) \<and>
                          offset p + length (chars p) - 1 + s = i) (parts pat))"
proof -
  let ?n = "length (parts pat)" and ?ws = "inserted pat" and ?T = "take (Suc i) str"
  let ?Q = "\<lambda>r. fst r < ?n \<and> toff pat r + s = i"
  let ?G = "\<lambda>p. suffix (chars p) ?T \<and> offset p + length (chars p) - 1 + s = i"
  have "length (filter ?Q rs) =
      length (filter (\<lambda>j. suffix (?ws ! j) ?T \<and> ?Q (j, length (?ws ! j))) [0..<length ?ws])"
    by (rule cnt)
  also have "\<dots> = length (filter (\<lambda>j. j < ?n \<and> ?G (parts pat ! j)) [0..<length ?ws])"
  proof (rule length_filter_cong)
    fix j assume "j \<in> set [0..<length ?ws]"
    show "(suffix (?ws ! j) ?T \<and> ?Q (j, length (?ws ! j))) = (j < ?n \<and> ?G (parts pat ! j))"
    proof (cases "j < ?n")
      case True
      from inserted_part[OF True] toff_part[OF True] True show ?thesis by auto
    next
      case False
      then show ?thesis by simp
    qed
  qed
  also have "\<dots> = length (filter ?G (parts pat))" by (rule part_count)
  finally show ?thesis .
qed

subsection \<open>One position: the slots\<close>

text \<open>After position \<open>i\<close> the slot of every candidate in flight holds its state.\<close>

lemma window_step:
  assumes ok: "pattern_ok pat" and bn: "length (parts pat) < 2 ^ 64" and i: "i < length str"
    and lp: "length pm = length_p pat" and ld: "length dis = length_p pat"
    and bd: "\<forall>x < length_p pat. pm ! x < 2 ^ 64"
    and inv: "\<forall>s. s < i \<and> i < s + length_p pat \<and> s + length_p pat \<le> length str \<longrightarrow>
        dis ! (s mod length_p pat) = dis_at pat str s i \<and>
        (\<not> dis_at pat str s i \<longrightarrow> pm ! (s mod length_p pat) = cnt_at pat str s i)"
    and val: "\<forall>r \<in> set rs. valid_rec pat r"
    and cnt: "\<And>Q. length (filter Q rs) =
        length (filter (\<lambda>j. suffix (inserted pat ! j) (take (Suc i) str) \<and>
                             Q (j, length (inserted pat ! j))) [0..<length (inserted pat)])"
    and res: "fold (\<lambda>r pd. process_spec pat (length str) i (i mod length_p pat) pd r) rs
               (pm[i mod length_p pat := 0], dis[i mod length_p pat := False]) = (pm2, dis2)"
  shows "length pm2 = length_p pat \<and> length dis2 = length_p pat \<and>
     (\<forall>x < length_p pat. pm2 ! x < 2 ^ 64) \<and>
     (\<forall>s. s \<le> i \<and> i < s + length_p pat \<and> s + length_p pat \<le> length str \<longrightarrow>
        dis2 ! (s mod length_p pat) = dis_at pat str s (Suc i) \<and>
        (\<not> dis_at pat str s (Suc i) \<longrightarrow> pm2 ! (s mod length_p pat) = cnt_at pat str s (Suc i)))"
proof -
  let ?L = "length_p pat" and ?N = "length str" and ?n = "length (parts pat)"
  let ?ms = "i mod ?L"
  let ?pm1 = "pm[?ms := 0]" and ?dis1 = "dis[?ms := False]"
  from ok have L0: "0 < ?L" by (simp add: pattern_ok_def)
  have l1: "length ?pm1 = ?L" "length ?dis1 = ?L" using lp ld by auto
  have b1: "\<And>x. x < ?L \<Longrightarrow> ?pm1 ! x < 2 ^ 64"
    using bd lp by (simp add: nth_list_update)
  have slot: "\<And>x. x < ?L \<Longrightarrow>
      length pm2 = ?L \<and> length dis2 = ?L \<and> pm2 ! x < 2 ^ 64 \<and>
      (dis2 ! x \<longleftrightarrow> ?dis1 ! x \<or> (\<exists>r \<in> set rs. ?n \<le> fst r \<and> hits pat ?N i ?ms x r)) \<and>
      (\<not> dis2 ! x \<longrightarrow> pm2 ! x =
         (?pm1 ! x + length (filter (\<lambda>r. fst r < ?n \<and> hits pat ?N i ?ms x r) rs)) mod 2 ^ 64)"
  proof -
    fix x assume x: "x < ?L"
    from fold_process_spec[OF L0 x l1 b1[OF x], where sl = ?N and i = i and ms = ?ms and rs = rs] res
    show "length pm2 = ?L \<and> length dis2 = ?L \<and> pm2 ! x < 2 ^ 64 \<and>
      (dis2 ! x \<longleftrightarrow> ?dis1 ! x \<or> (\<exists>r \<in> set rs. ?n \<le> fst r \<and> hits pat ?N i ?ms x r)) \<and>
      (\<not> dis2 ! x \<longrightarrow> pm2 ! x =
         (?pm1 ! x + length (filter (\<lambda>r. fst r < ?n \<and> hits pat ?N i ?ms x r) rs)) mod 2 ^ 64)"
      by simp
  qed
  have len2: "length pm2 = ?L" "length dis2 = ?L" using slot[of 0] L0 by auto
  have bd2: "\<forall>x < ?L. pm2 ! x < 2 ^ 64" using slot by blast
  have win: "\<And>s. s \<le> i \<Longrightarrow> i < s + ?L \<Longrightarrow> s + ?L \<le> ?N \<Longrightarrow>
        dis2 ! (s mod ?L) = dis_at pat str s (Suc i) \<and>
        (\<not> dis_at pat str s (Suc i) \<longrightarrow> pm2 ! (s mod ?L) = cnt_at pat str s (Suc i))"
  proof -
    fix s assume s: "s \<le> i" "i < s + ?L" "s + ?L \<le> ?N"
    let ?x = "s mod ?L"
    have x: "?x < ?L" using L0 by simp
    have same: "?x = ?ms \<longleftrightarrow> s = i"
    proof
      assume "?x = ?ms"
      from window_unique[OF this s(1,2)] show "s = i" .
    qed simp
    have d1: "?dis1 ! ?x = dis_at pat str s i"
    proof (cases "s = i")
      case True
      then show ?thesis using x ld by (simp add: dis_at_self)
    next
      case False
      with same have "?x \<noteq> ?ms" by simp
      moreover from False s inv have "dis ! ?x = dis_at pat str s i" by simp
      ultimately show ?thesis by simp
    qed
    have p1: "\<not> dis_at pat str s i \<Longrightarrow> ?pm1 ! ?x = cnt_at pat str s i"
    proof (cases "s = i")
      case True
      then show ?thesis using x lp by (simp add: cnt_at_self[OF ok])
    next
      case False
      assume nd: "\<not> dis_at pat str s i"
      from False same have "?x \<noteq> ?ms" by simp
      moreover from False s inv nd have "pm ! ?x = cnt_at pat str s i" by simp
      ultimately show ?thesis by simp
    qed
    have hw: "\<And>r. r \<in> set rs \<Longrightarrow> hits pat ?N i ?ms ?x r \<longleftrightarrow> toff pat r + s = i"
    proof -
      fix r assume "r \<in> set rs"
      with val have "valid_rec pat r" by simp
      from hits_window[OF toff_bound[OF ok this] s] show "hits pat ?N i ?ms ?x r \<longleftrightarrow> toff pat r + s = i" .
    qed
    have ce: "(\<exists>r \<in> set rs. ?n \<le> fst r \<and> hits pat ?N i ?ms ?x r) \<longleftrightarrow>
        (\<exists>c \<in> set (complement pat). index c + s = i \<and> str ! i = ch_c c)"
    proof -
      have "(\<exists>r \<in> set rs. ?n \<le> fst r \<and> hits pat ?N i ?ms ?x r) \<longleftrightarrow>
          (\<exists>r \<in> set rs. ?n \<le> fst r \<and> toff pat r + s = i)"
        by (rule bex_cong[OF refl]) (simp add: hw)
      also have "\<dots> \<longleftrightarrow> (\<exists>c \<in> set (complement pat). index c + s = i \<and> str ! i = ch_c c)"
        by (rule complement_records[OF i cnt])
      finally show ?thesis .
    qed
    have pe: "length (filter (\<lambda>r. fst r < ?n \<and> hits pat ?N i ?ms ?x r) rs) =
        length (filter (\<lambda>p. suffix (chars p) (take (Suc i) str) \<and>
                          offset p + length (chars p) - 1 + s = i) (parts pat))"
    proof -
      have "length (filter (\<lambda>r. fst r < ?n \<and> hits pat ?N i ?ms ?x r) rs) =
          length (filter (\<lambda>r. fst r < ?n \<and> toff pat r + s = i) rs)"
        by (rule length_filter_cong) (simp add: hw)
      also have "\<dots> = length (filter (\<lambda>p. suffix (chars p) (take (Suc i) str) \<and>
                          offset p + length (chars p) - 1 + s = i) (parts pat))"
        by (rule part_records[OF cnt])
      finally show ?thesis .
    qed
    from slot[OF x] have
      d2: "dis2 ! ?x \<longleftrightarrow> ?dis1 ! ?x \<or> (\<exists>r \<in> set rs. ?n \<le> fst r \<and> hits pat ?N i ?ms ?x r)"
      and p2: "\<not> dis2 ! ?x \<Longrightarrow> pm2 ! ?x =
         (?pm1 ! ?x + length (filter (\<lambda>r. fst r < ?n \<and> hits pat ?N i ?ms ?x r) rs)) mod 2 ^ 64"
      by blast+
    have D: "dis2 ! ?x = dis_at pat str s (Suc i)"
      using d2 d1 ce by (simp add: dis_at_Suc)
    have C: "\<not> dis_at pat str s (Suc i) \<Longrightarrow> pm2 ! ?x = cnt_at pat str s (Suc i)"
    proof -
      assume nd: "\<not> dis_at pat str s (Suc i)"
      then have nd0: "\<not> dis_at pat str s i" by (simp add: dis_at_Suc)
      from nd D have "\<not> dis2 ! ?x" by simp
      from p2[OF this] p1[OF nd0] pe have
        "pm2 ! ?x = (cnt_at pat str s i +
           length (filter (\<lambda>p. suffix (chars p) (take (Suc i) str) \<and>
                          offset p + length (chars p) - 1 + s = i) (parts pat))) mod 2 ^ 64"
        by simp
      also have "\<dots> = cnt_at pat str s (Suc i) mod 2 ^ 64"
        using cnt_at_Suc[OF ok, of i str s] i by simp
      also have "\<dots> = cnt_at pat str s (Suc i)"
        using cnt_at_le[of pat str s "Suc i"] bn by simp
      finally show ?thesis .
    qed
    from D C show "dis2 ! ?x = dis_at pat str s (Suc i) \<and>
        (\<not> dis_at pat str s (Suc i) \<longrightarrow> pm2 ! ?x = cnt_at pat str s (Suc i))" by blast
  qed
  from len2 bd2 win show ?thesis by blast
qed

subsection \<open>One position: the emission\<close>

text \<open>The test at the end of an iteration reports the candidate whose window closes, if it matches.\<close>

lemma length_filter_all: "length (filter Q xs) = length xs \<longleftrightarrow> (\<forall>x \<in> set xs. Q x)"
proof (induction xs)
  case Nil
  show ?case by simp
next
  case (Cons a xs)
  have le: "length (filter Q xs) \<le> length xs" by simp
  show ?case
  proof (cases "Q a")
    case True
    with Cons show ?thesis by simp
  next
    case False
    from le have "length (filter Q xs) \<noteq> Suc (length xs)" by linarith
    with False show ?thesis by simp
  qed
qed

lemma final_dis:
  assumes ok: "pattern_ok pat" and s: "s + length_p pat \<le> length str"
  shows "dis_at pat str s (s + length_p pat) \<longleftrightarrow>
         (\<exists>c \<in> set (complement pat). complement_fires str s c)"
proof -
  have "\<And>c. c \<in> set (complement pat) \<Longrightarrow>
      (s + index c < s + length_p pat \<and> str ! (s + index c) = ch_c c) = complement_fires str s c"
    using ok s by (auto simp: pattern_ok_def complement_fires_def)
  then show ?thesis unfolding dis_at_def by (rule bex_cong[OF refl])
qed

lemma final_cnt:
  assumes ok: "pattern_ok pat"
  shows "cnt_at pat str s (s + length_p pat) = length (filter (part_matches str s) (parts pat))"
  unfolding cnt_at_def
proof (rule length_filter_cong)
  fix p assume "p \<in> set (parts pat)"
  with ok have "offset p + length (chars p) \<le> length_p pat" by (simp add: pattern_ok_def)
  then show "(s + offset p + length (chars p) \<le> s + length_p pat \<and> part_matches str s p) =
      part_matches str s p" by simp
qed

lemma emit_sem:
  assumes ok: "pattern_ok pat" and ft: "fits pat str" and i: "i < length str"
    and len: "length pm2 = length_p pat" "length dis2 = length_p pat"
    and win: "\<forall>s. s \<le> i \<and> i < s + length_p pat \<and> s + length_p pat \<le> length str \<longrightarrow>
        dis2 ! (s mod length_p pat) = dis_at pat str s (Suc i) \<and>
        (\<not> dis_at pat str s (Suc i) \<longrightarrow> pm2 ! (s mod length_p pat) = cnt_at pat str s (Suc i))"
    and mts: "mts = filter (pattern_at pat str) [0..<i + 1 - length_p pat]"
  shows "emitMatch m pat (length (parts pat)) i (Suc i mod length_p pat) pm2 dis2 mts =
         Some (filter (pattern_at pat str) [0..<Suc i + 1 - length_p pat])"
proof -
  let ?L = "length_p pat" and ?N = "length str" and ?n = "length (parts pat)"
  from ok have L0: "0 < ?L" by (simp add: pattern_ok_def)
  from ft i have ib: "i + 1 < 2 ^ 64" by (simp add: fits_def)
  then have a1: "size_add i 1 = Suc i" by (simp add: size_add_exact)
  show ?thesis
  proof (cases "?L \<le> Suc i")
    case False
    then have "[0..<Suc i + 1 - ?L] = []" "[0..<i + 1 - ?L] = []" by auto
    with False mts a1 show ?thesis by (simp add: emitMatch_def)
  next
    case True
    let ?s = "Suc i - ?L"
    have s: "?s \<le> i" "i < ?s + ?L" "?s + ?L \<le> ?N" "?s + ?L = Suc i" using True L0 i by auto
    have md: "?s mod ?L = Suc i mod ?L" using True by (simp add: le_mod_geq)
    have x: "Suc i mod ?L < ?L" using L0 by simp
    from win s md have
      D: "dis2 ! (Suc i mod ?L) = dis_at pat str ?s (Suc i)"
      and C: "\<not> dis_at pat str ?s (Suc i) \<Longrightarrow> pm2 ! (Suc i mod ?L) = cnt_at pat str ?s (Suc i)"
      by (metis, metis)
    have D': "dis_at pat str ?s (Suc i) \<longleftrightarrow> (\<exists>c \<in> set (complement pat). complement_fires str ?s c)"
      using final_dis[OF ok s(3)] s(4) by simp
    have C': "cnt_at pat str ?s (Suc i) = length (filter (part_matches str ?s) (parts pat))"
      using final_cnt[OF ok, of str ?s] s(4) by simp
    have sub: "size_sub m (Suc i) ?L = Some ?s" using True ib by (intro size_sub_exact) auto
    have up: "[0..<Suc i + 1 - ?L] = [0..<i + 1 - ?L] @ [?s]"
    proof -
      have "Suc i + 1 - ?L = Suc ?s" "i + 1 - ?L = ?s" using True by auto
      then show ?thesis by simp
    qed
    have pa: "pattern_at pat str ?s \<longleftrightarrow>
        \<not> dis2 ! (Suc i mod ?L) \<and> pm2 ! (Suc i mod ?L) = ?n"
    proof (cases "dis_at pat str ?s (Suc i)")
      case True
      with D D' show ?thesis by (auto simp: pattern_at_def)
    next
      case False
      from C[OF False] C' have "pm2 ! (Suc i mod ?L) = ?n \<longleftrightarrow>
          (\<forall>p \<in> set (parts pat). part_matches str ?s p)"
        by (simp add: length_filter_all)
      with False D D' show ?thesis by (auto simp: pattern_at_def)
    qed
    have "emitMatch m pat ?n i (Suc i mod ?L) pm2 dis2 mts =
        Some (if pattern_at pat str ?s then mts @ [?s] else mts)"
      using True a1 x len sub pa by (simp add: emitMatch_def vec_get_def)
    with up mts show ?thesis by simp
  qed
qed

subsection \<open>The scan\<close>

text \<open>Every iteration keeps the invariant of the scan; the scan returns the matches.\<close>

lemma scan_step:
  assumes ai: "auto_inv h P KS (inserted pat) {..<length (states h)}"
    and ok: "pattern_ok pat" and ft: "fits pat str" and i: "i < length str"
    and inv: "scan_inv h P pat str i st"
  shows "\<exists>st'. scanLoop m h pat (length str) i (str ! i # rest) st =
               scanLoop m h pat (length str) (i + 1) rest st' \<and>
               scan_inv h P pat str (Suc i) st'"
proof -
  let ?L = "length_p pat" and ?N = "length str" and ?n = "length (parts pat)"
  let ?W = "paths h P" and ?T = "take (Suc i) str" and ?c = "str ! i"
  let ?ms = "i mod ?L"
  let ?pm = "partial_matches st" and ?dis = "disabled st"
  let ?pm1 = "?pm[?ms := 0]" and ?dis1 = "?dis[?ms := False]"
  from ok have L0: "0 < ?L" by (simp add: pattern_ok_def)
  from ft have f1: "?N + ?L < 2 ^ 64" and f2: "?n + length (complement pat) < 2 ^ 64"
    by (auto simp: fits_def)
  from inv have lp: "length ?pm = ?L" and ld: "length ?dis = ?L"
    and bd: "\<forall>x < ?L. ?pm ! x < 2 ^ 64"
    and msi: "match_shift st = ?ms"
    and cur: "cs st < length (states h)" and ls: "ls_of ?W (take i str) (P (cs st))"
    and mts: "matches st = filter (pattern_at pat str) [0..<i + 1 - ?L]"
    and win: "\<forall>s. s < i \<and> i < s + ?L \<and> s + ?L \<le> ?N \<longrightarrow>
        ?dis ! (s mod ?L) = dis_at pat str s i \<and>
        (\<not> dis_at pat str s i \<longrightarrow> ?pm ! (s mod ?L) = cnt_at pat str s i)"
    unfolding scan_inv_def by blast+
  have msL: "?ms < ?L" using L0 by simp
  from ai have tr: "trie h P" by (simp add: auto_inv_def)
  then have P0: "P 0 = []" and n0: "0 < length (states h)" by (auto simp: trie_def)
  have pc: "prefix_closed ?W" by (rule trie_prefix_closed[OF tr])
  have Teq: "?T = take i str @ [?c]" using i by (simp add: take_Suc_conv_app_nth)
  \<comment> \<open>the step of the automaton\<close>
  have curD: "cs st \<in> {..<length (states h)}" using cur by simp
  from findFallback_sem[OF ai curD, of ?c] obtain r where
    r: "findFallback h (Some (cs st)) ?c = Some r"
       "case r of
          Some g \<Rightarrow> g < length (states h) \<and> (\<exists>u. ext_of ?W (P (cs st)) ?c u \<and> P g = u @ [?c])
        | None \<Rightarrow> no_ext ?W (P (cs st)) ?c" by blast
  define found where "found = (case r of Some g \<Rightarrow> True | None \<Rightarrow> False)"
  define cs1 where "cs1 = (case r of Some g \<Rightarrow> g | None \<Rightarrow> 0)"
  have sm: "stepMatching h (cs st) ?c = Some (found, cs1)"
    using stepMatching_findFallback[OF ai curD r(1)] by (cases r) (auto simp: found_def cs1_def)
  have c1: "cs1 < length (states h)" and ls1: "ls_of ?W ?T (P cs1)" and fnd: "found \<longleftrightarrow> cs1 \<noteq> 0"
  proof -
    show "cs1 < length (states h)" using r(2) n0 by (cases r) (auto simp: cs1_def)
    show "ls_of ?W ?T (P cs1)"
    proof (cases r)
      case None
      with r(2) have "no_ext ?W (P (cs st)) ?c" by simp
      from ls_of_snoc_none[OF pc ls this] None P0 Teq show ?thesis by (simp add: cs1_def)
    next
      case (Some g)
      with r(2) obtain u where u: "ext_of ?W (P (cs st)) ?c u" "P g = u @ [?c]" by auto
      from ls_of_snoc[OF pc ls u(1)] u(2) Some Teq show ?thesis by (simp add: cs1_def)
    qed
    show "found \<longleftrightarrow> cs1 \<noteq> 0"
    proof (cases r)
      case None
      then show ?thesis by (simp add: found_def cs1_def)
    next
      case (Some g)
      with r(2) obtain u where "P g = u @ [?c]" by auto
      with P0 have "g \<noteq> 0" by (metis snoc_eq_iff_butlast)
      with Some show ?thesis by (simp add: found_def cs1_def)
    qed
  qed
  \<comment> \<open>the records of the new state\<close>
  have ne: "\<And>j. j < length (inserted pat) \<Longrightarrow> inserted pat ! j \<noteq> []"
    by (rule inserted_nonempty[OF ok])
  from state_records[OF ai ne c1 ls1] obtain R where
    run: "\<And>(f :: nat list \<times> bool list \<Rightarrow> Result \<Rightarrow> (nat list \<times> bool list) option) acc.
        (if cs1 = 0 then Some acc else forResults h f (res h cs1) acc) = fold_opt f R acc"
    and cnt: "\<And>Q. length (filter Q (map rec_of R)) =
          length (filter (\<lambda>j. suffix (inserted pat ! j) ?T \<and> Q (j, length (inserted pat ! j)))
                   [0..<length (inserted pat)])"
    by blast
  have val: "\<forall>r \<in> set (map rec_of R). valid_rec pat r"
  proof -
    have "length (filter (\<lambda>r. \<not> valid_rec pat r) (map rec_of R)) =
        length (filter (\<lambda>j. suffix (inserted pat ! j) ?T \<and>
                 \<not> valid_rec pat (j, length (inserted pat ! j))) [0..<length (inserted pat)])"
      by (rule cnt)
    also have "\<dots> = 0" using inserted_valid[of _ pat] by (simp add: filter_empty_conv)
    finally have "length (filter (\<lambda>r. \<not> valid_rec pat r) (map rec_of R)) = 0" .
    then have "\<forall>r \<in> set (map rec_of R). \<not> \<not> valid_rec pat r"
      by (simp only: length_0_conv filter_empty_conv)
    then show ?thesis by blast
  qed
  then have valR: "\<forall>r \<in> set R. valid_rec pat (rec_of r)" by simp
  have l1: "length ?pm1 = ?L" "length ?dis1 = ?L" using lp ld by auto
  obtain pm2 dis2 where fo:
    "fold (\<lambda>r pd. process_spec pat ?N i ?ms pd r) (map rec_of R) (?pm1, ?dis1) = (pm2, dis2)"
    by (cases "fold (\<lambda>r pd. process_spec pat ?N i ?ms pd r) (map rec_of R) (?pm1, ?dis1)")
  have recs: "(if found then do {
          s \<leftarrow> getState h cs1;
          forResults h (processResult m pat ?n ?N i ?ms) (results s) (?pm1, ?dis1)
        } else Some (?pm1, ?dis1)) = Some (pm2, dis2)"
  proof -
    have "(if found then do {
          s \<leftarrow> getState h cs1;
          forResults h (processResult m pat ?n ?N i ?ms) (results s) (?pm1, ?dis1)
        } else Some (?pm1, ?dis1)) =
        (if cs1 = 0 then Some (?pm1, ?dis1)
         else forResults h (processResult m pat ?n ?N i ?ms) (res h cs1) (?pm1, ?dis1))"
      using fnd c1 by (simp add: getState_def res_def)
    also have "\<dots> = fold_opt (processResult m pat ?n ?N i ?ms) R (?pm1, ?dis1)" by (rule run)
    also have "\<dots> = Some (pm2, dis2)"
      using fold_opt_process[OF ok f1 f2 i msL valR l1, of m] fo by simp
    finally show ?thesis .
  qed
  from f2 have bn: "?n < 2 ^ 64" by simp
  from window_step[OF ok bn i lp ld bd win val cnt fo] have
    len2: "length pm2 = ?L" "length dis2 = ?L" and bd2: "\<forall>x < ?L. pm2 ! x < 2 ^ 64"
    and win2: "\<forall>s. s \<le> i \<and> i < s + ?L \<and> s + ?L \<le> ?N \<longrightarrow>
        dis2 ! (s mod ?L) = dis_at pat str s (Suc i) \<and>
        (\<not> dis_at pat str s (Suc i) \<longrightarrow> pm2 ! (s mod ?L) = cnt_at pat str s (Suc i))"
    by blast+
  \<comment> \<open>the next slot and the emission\<close>
  have "?ms + 1 < 2 ^ 64" using msL f1 by simp
  then have a1: "size_add ?ms 1 = ?ms + 1" by (rule size_add_exact)
  have ms1: "(if size_add ?ms 1 = ?L then 0 else size_add ?ms 1) = Suc i mod ?L"
    unfolding a1 by (simp add: mod_Suc)
  have em: "emitMatch m pat ?n i (Suc i mod ?L) pm2 dis2 (matches st) =
      Some (filter (pattern_at pat str) [0..<Suc i + 1 - ?L])"
    by (rule emit_sem[OF ok ft i len2 win2 mts])
  define st' where "st' = \<lparr>partial_matches = pm2, disabled = dis2, match_shift = Suc i mod ?L,
      matches = filter (pattern_at pat str) [0..<Suc i + 1 - ?L], cs = cs1\<rparr>"
  have v1: "vec_set ?pm ?ms 0 = Some ?pm1" "vec_set ?dis ?ms False = Some ?dis1"
    using msL lp ld by (auto simp: vec_set_def)
  have "scanLoop m h pat ?N i (?c # rest) st = scanLoop m h pat ?N (i + 1) rest st'"
    by (simp only: scanLoop.simps Let_def msi v1 sm recs ms1 em Option.bind.simps prod.case st'_def)
  moreover have "scan_inv h P pat str (Suc i) st'"
    unfolding scan_inv_def st'_def using i len2 bd2 c1 ls1 win2 by simp
  ultimately show ?thesis by blast
qed

lemma scan_inv_init:
  assumes tr: "trie h P" and ok: "pattern_ok pat"
  shows "scan_inv h P pat str 0
     \<lparr>partial_matches = replicate (length_p pat) 0, disabled = replicate (length_p pat) False,
      match_shift = 0, matches = [], cs = 0\<rparr>"
proof -
  from tr have P0: "P 0 = []" and n0: "0 < length (states h)" by (auto simp: trie_def)
  have "[] \<in> paths h P" using trie_prefix_closed[OF tr] by (simp add: prefix_closed_def)
  then have "ls_of (paths h P) [] (P 0)" using P0 by (simp add: ls_of_def)
  moreover from ok have "0 < length_p pat" by (simp add: pattern_ok_def)
  ultimately show ?thesis using n0 by (simp add: scan_inv_def)
qed

lemma scanLoop_correct:
  assumes ai: "auto_inv h P KS (inserted pat) {..<length (states h)}"
    and ok: "pattern_ok pat" and ft: "fits pat str"
  shows "scan_inv h P pat str i st \<Longrightarrow> rest = drop i str \<Longrightarrow>
         scanLoop m h pat (length str) i rest st = Some (all_matches pat str)"
proof (induction rest arbitrary: i st)
  case Nil
  then have "length str \<le> i" by simp
  moreover from Nil.prems(1) have "i \<le> length str"
    and "matches st = filter (pattern_at pat str) [0..<i + 1 - length_p pat]"
    by (auto simp: scan_inv_def)
  ultimately show ?case by (simp add: all_matches_def)
next
  case (Cons c rest)
  from Cons.prems(2) have i: "i < length str"
    by (metis drop_all list.distinct(1) not_le)
  with Cons.prems(2) have c: "c = str ! i" and rest: "rest = drop (Suc i) str"
    by (simp_all add: Cons_nth_drop_Suc[symmetric])
  from scan_step[OF ai ok ft i Cons.prems(1), of m rest] obtain st' where
    st': "scanLoop m h pat (length str) i (str ! i # rest) st =
            scanLoop m h pat (length str) (i + 1) rest st'"
         "scan_inv h P pat str (Suc i) st'" by blast
  from Cons.IH[OF st'(2) rest] st'(1) c show ?case by simp
qed

lemma scanFrom_correct:
  assumes b: "buildForestFromPattern pat = Some (h0, root)"
    and c: "forestIntoStateMachine h0 root = Some h"
    and ok: "pattern_ok pat" and ft: "fits pat str"
  shows "scanFrom m h root pat str = Some (all_matches pat str)"
proof -
  from pipeline_inv[OF b c] obtain P KS where
    r0: "root = 0" and ai: "auto_inv h P KS (inserted pat) {..<length (states h)}" by blast
  from ai have tr: "trie h P" by (simp add: auto_inv_def)
  from scanLoop_correct[OF ai ok ft scan_inv_init[OF tr ok], of str m] r0
  show ?thesis by (simp add: scanFrom_def)
qed

subsection \<open>The examples, evaluated\<close>

lemma build_ab: "buildForestFromPattern pat_ab = Some (forest_ab, 0)"
  by (simp add: buildForestFromPattern_def pat_ab_def forest_ab_def allocState_def emptyHeap_def
      extendForest_def addResult_def allocResult_def storeBack_def getState_def putState_def
      getResult_def putResult_def findTransition_def newState_def)

lemma compile_ab: "forestIntoStateMachine forest_ab 0 = Some machine_ab"
  by (simp add: forestIntoStateMachine_def stateMachineLoop.simps findFallback.simps
      forest_ab_def machine_ab_def storeBack_def getState_def putState_def
      getResult_def putResult_def findTransition_def)

lemma build_bad: "buildForestFromPattern bad_pat = Some (forest_bad, 0)"
  by (simp add: buildForestFromPattern_def bad_pat_def forest_bad_def allocState_def emptyHeap_def
      extendForest_def addResult_def allocResult_def storeBack_def getState_def putState_def
      getResult_def putResult_def findTransition_def newState_def)

lemma compile_bad: "forestIntoStateMachine forest_bad 0 = Some machine_bad"
  by (simp add: forestIntoStateMachine_def stateMachineLoop.simps findFallback.simps
      forest_bad_def machine_bad_def storeBack_def getState_def putState_def
      getResult_def putResult_def findTransition_def)

lemma step_bad_root: "stepMatching machine_bad 0 (CHR ''z'') = Some (True, 1)"
  by (subst stepMatching.simps) (simp add: machine_bad_def getState_def findTransition_def)

lemma step_bad_leaf: "stepMatching machine_bad (Suc 0) (CHR ''z'') = Some (True, 1)"
  by (subst stepMatching.simps, subst stepMatching.simps)
     (simp add: machine_bad_def getState_def findTransition_def)

lemma state_bad_leaf:
  "getState machine_bad (Suc 0) =
     Some \<lparr>transitions = [], fallback = Some 0, results = Some 0, results_back = NextOf 0\<rparr>"
  by (simp add: machine_bad_def getState_def)

lemma results_bad_leaf:
  "forResults machine_bad f (Some 0) acc = f acc \<lparr>pat_idx = 0, length_r = 1, next_r = None\<rparr>"
proof -
  have "forResults machine_bad f None = Some" by (rule ext) (subst forResults.simps, simp)
  then show ?thesis
    by (subst forResults.simps) (simp add: machine_bad_def getResult_def)
qed

text \<open>
  Without the invariants a subtraction of the scan does wrap. With the complement of
  \<open>bad_pat\<close>, whose offset 2 lies outside the pattern of length 1, the scan of \<open>zzz\<close>
  computes \<open>1 + 0 - 2\<close> at position 2: the checked scan has no result, and the program
  goes on with the wrapped value.
\<close>

lemma malformed_pattern_wraps:
  "scanFrom Checked machine_bad 0 bad_pat ''zzz'' = None \<and>
   getTotalMatches machine_bad 0 bad_pat ''zzz'' = Some [0, 1]"
  by (simp add: getTotalMatches_def scanFrom_def bad_pat_def step_bad_root step_bad_leaf
      state_bad_leaf results_bad_leaf processResult_def totalOff_def emitMatch_def
      size_add_def size_sub_def size_mod_def vec_get_def vec_set_def)

lemma search_bad: "searchPattern bad_pat ''zzz'' = Some [0, 1]"
  using malformed_pattern_wraps by (simp add: searchPattern_def build_bad compile_bad)

lemma extendForest_walk_rnodes:
  "extendForest_walk h s w = Some (h', s') \<Longrightarrow> rnodes h' = rnodes h"
proof (induction w arbitrary: h s)
  case Nil
  then show ?case by simp
next
  case (Cons c w)
  show ?case
  proof (cases "getState h s")
    case None
    with Cons.prems show ?thesis by simp
  next
    case (Some st)
    show ?thesis
    proof (cases "findTransition st c")
      case None
      with Some Cons.prems obtain h2 where
        h2: "putState (fst (allocState h)) s
               (st\<lparr>transitions := transitions st @ [\<lparr>ch = c, dest = snd (allocState h)\<rparr>]\<rparr>) = Some h2"
            "extendForest_walk h2 (snd (allocState h)) w = Some (h', s')"
        by (auto simp: allocState_def split: bind_splits)
      from h2(1) have "rnodes h2 = rnodes h"
        by (auto simp: putState_def allocState_def split: if_splits)
      with Cons.IH[OF h2(2)] show ?thesis by simp
    next
      case (Some t)
      with \<open>getState h s = Some st\<close> Cons.prems have "extendForest_walk h (dest t) w = Some (h', s')"
        by simp
      then show ?thesis by (rule Cons.IH)
    qed
  qed
qed

lemma addResult_rnodes:
  "addResult h s i l = Some h' \<Longrightarrow> length (rnodes h') = Suc (length (rnodes h))"
  by (auto simp: addResult_def allocResult_def storeBack_def putState_def putResult_def
      getState_def getResult_def split: bind_splits back_ptr.splits if_splits)

lemma extendForest_rnodes:
  "extendForest h r w i = Some h' \<Longrightarrow> length (rnodes h') = Suc (length (rnodes h))"
  by (auto simp: extendForest_def split: bind_splits
      dest!: extendForest_walk_rnodes addResult_rnodes)

lemma insertParts_rnodes:
  "insertParts h r ps i = Some h' \<Longrightarrow> length (rnodes h') = length (rnodes h) + length ps"
  by (induction ps arbitrary: h i) (auto split: bind_splits dest!: extendForest_rnodes)

lemma insertComplements_rnodes:
  "insertComplements h r cl n i = Some h' \<Longrightarrow> length (rnodes h') = length (rnodes h) + length cl"
  by (induction cl arbitrary: h i) (auto split: bind_splits dest!: extendForest_rnodes)

lemma scan_empty_text: "getTotalMatches h root pat [] = Some []"
  by (simp add: getTotalMatches_def scanFrom_def)


lemma sorted_all_matches: "sorted_wrt (<) (all_matches pat str)"
  unfolding all_matches_def by (rule sorted_wrt_filter) simp

lemma set_all_matches:
  assumes ok: "pattern_ok pat"
  shows "set (all_matches pat str) =
     {s. s + length_p pat \<le> length str \<and>
         (\<forall>p \<in> set (parts pat). take (length (chars p)) (drop (s + offset p) str) = chars p) \<and>
         (\<forall>c \<in> set (complement pat). str ! (s + index c) \<noteq> ch_c c)}"
proof -
  have "\<And>s. s + length_p pat \<le> length str \<Longrightarrow>
      pattern_at pat str s \<longleftrightarrow>
        (\<forall>p \<in> set (parts pat). take (length (chars p)) (drop (s + offset p) str) = chars p) \<and>
        (\<forall>c \<in> set (complement pat). str ! (s + index c) \<noteq> ch_c c)"
  proof -
    fix s assume s: "s + length_p pat \<le> length str"
    have "\<And>c. c \<in> set (complement pat) \<Longrightarrow>
        complement_fires str s c \<longleftrightarrow> str ! (s + index c) = ch_c c"
      using ok s by (auto simp: pattern_ok_def complement_fires_def)
    then show "pattern_at pat str s \<longleftrightarrow>
        (\<forall>p \<in> set (parts pat). take (length (chars p)) (drop (s + offset p) str) = chars p) \<and>
        (\<forall>c \<in> set (complement pat). str ! (s + index c) \<noteq> ch_c c)"
      by (simp add: pattern_at_def part_matches_def)
  qed
  moreover have "\<And>s. s < length str + 1 - length_p pat \<longleftrightarrow> s + length_p pat \<le> length str"
    using ok by (auto simp: pattern_ok_def)
  ultimately show ?thesis unfolding all_matches_def by auto
qed

lemma getTotalMatches_correct:
  assumes "pattern_ok pat" and "fits pat str"
  shows "\<exists>h0 root h. buildForestFromPattern pat = Some (h0, root) \<and>
     forestIntoStateMachine h0 root = Some h \<and>
     scanFrom Checked h root pat str = Some (all_matches pat str) \<and>
     getTotalMatches h root pat str = Some (all_matches pat str)"
proof -
  from pipeline_total[of pat] obtain h0 h where
    1: "buildForestFromPattern pat = Some (h0, 0)" "forestIntoStateMachine h0 0 = Some h" by blast
  from scanFrom_correct[OF 1 assms] have "scanFrom Checked h 0 pat str = Some (all_matches pat str)"
    "getTotalMatches h 0 pat str = Some (all_matches pat str)"
    by (simp_all add: getTotalMatches_def)
  with 1 show ?thesis by blast
qed

section \<open>The claims\<close>

text \<open>
  C1. For a pattern that satisfies the invariants of the data model (a positive length,
  non-empty parts that lie inside the pattern, complement offsets inside the pattern) and
  for every text, the automaton of the pattern is built and the scan returns exactly the
  start offsets \<open>s\<close> with \<open>s + length_p \<le> length str\<close> at which every part equals the
  text from \<open>s + offset\<close> on and no complement meets its forbidden character at
  \<open>s + index\<close>; the offsets are returned in increasing order. Neither the disjointness
  of the parts nor the uniqueness of the complement offsets is needed. The sizes are those
  of objects in memory (\<open>fits\<close>).
\<close>

theorem scan_returns_exactly_the_matches:
  assumes "pattern_ok pat" and "fits pat str"
  shows "\<exists>h0 root h ms. buildForestFromPattern pat = Some (h0, root) \<and>
     forestIntoStateMachine h0 root = Some h \<and>
     getTotalMatches h root pat str = Some ms \<and>
     set ms = {s. s + length_p pat \<le> length str \<and>
         (\<forall>p \<in> set (parts pat). take (length (chars p)) (drop (s + offset p) str) = chars p) \<and>
         (\<forall>c \<in> set (complement pat). str ! (s + index c) \<noteq> ch_c c)} \<and>
     sorted_wrt (<) ms"
  using getTotalMatches_correct[OF assms] set_all_matches[OF assms(1), of str]
    sorted_all_matches[of pat str] by metis

theorem scan_returns_exactly_the_matches_witness:
  "pattern_ok pat_z \<and> fits pat_z ''xabzcabqc'' \<and>
   (\<exists>h0 root h ms. buildForestFromPattern pat_z = Some (h0, root) \<and>
      forestIntoStateMachine h0 root = Some h \<and>
      getTotalMatches h root pat_z ''xabzcabqc'' = Some ms \<and>
      5 \<in> set ms \<and> 1 \<notin> set ms \<and> sorted_wrt (<) ms)"
proof -
  have ok: "pattern_ok pat_z" by (simp add: pattern_ok_def pat_z_def)
  have ft: "fits pat_z ''xabzcabqc''" by (simp add: fits_def pat_z_def)
  from scan_returns_exactly_the_matches[OF ok ft] obtain h0 root h ms where
    1: "buildForestFromPattern pat_z = Some (h0, root)" "forestIntoStateMachine h0 root = Some h"
       "getTotalMatches h root pat_z ''xabzcabqc'' = Some ms" "sorted_wrt (<) ms"
    and 2: "set ms = {s. s + length_p pat_z \<le> length ''xabzcabqc'' \<and>
         (\<forall>p \<in> set (parts pat_z). take (length (chars p)) (drop (s + offset p) ''xabzcabqc'') = chars p) \<and>
         (\<forall>c \<in> set (complement pat_z). ''xabzcabqc'' ! (s + index c) \<noteq> ch_c c)}"
    by blast
  have "5 \<in> set ms" unfolding 2 by (simp add: pat_z_def)
  moreover have "1 \<notin> set ms" unfolding 2 by (simp add: pat_z_def)
  ultimately show ?thesis using ok ft 1 by blast
qed

text \<open>
  C2. After \<open>forestIntoStateMachine\<close> has run on the trie of a pattern, the result list
  of every state is the list of the records that were added to the state itself (its list
  in the trie, before the run), followed by the whole list of its fallback state; the
  root, the only state without a fallback, keeps its own list. So the list of a state
  already holds all records along the fallback chain, and the scanner reads only the list
  of the current state.
\<close>

theorem result_lists_closed:
  assumes "buildForestFromPattern pat = Some (h0, root)"
    and "forestIntoStateMachine h0 root = Some h"
    and "d < length (states h)"
  shows "\<exists>own. resultList h0 (results (states h0 ! d)) = Some own \<and>
     (case fallback (states h ! d) of
        None \<Rightarrow> d = root \<and> resultList h (results (states h ! d)) = Some own
      | Some f \<Rightarrow> d \<noteq> root \<and>
          (\<exists>inh. resultList h (results (states h ! f)) = Some inh \<and>
                 resultList h (results (states h ! d)) = Some (own @ inh)))"
proof -
  from pipeline_inv[OF assms(1,2)] obtain P KS where
    r0: "root = 0" and fi: "forest_inv h0 P KS (inserted pat)"
    and ai: "auto_inv h P KS (inserted pat) {..<length (states h)}"
    and len: "length (states h) = length (states h0)" by blast
  let ?ws = "inserted pat"
  from fi assms(3) len have "seg h0 (res h0 d) (KS d) (case fb h0 d of None \<Rightarrow> None | Some f \<Rightarrow> res h0 f)"
    and "fb h0 d = None" unfolding forest_inv_def closed_def by auto
  then have s0: "seg h0 (res h0 d) (KS d) None" by simp
  from fi ai assms(3) len have
    "map (\<lambda>k. rec_of (rnodes h0 ! k)) (KS d) =
       map (\<lambda>j. (j, length (?ws ! j))) (filter (\<lambda>j. ?ws ! j = P d) [0..<length ?ws])"
    "map (\<lambda>k. rec_of (rnodes h ! k)) (KS d) =
       map (\<lambda>j. (j, length (?ws ! j))) (filter (\<lambda>j. ?ws ! j = P d) [0..<length ?ws])"
    unfolding forest_inv_def auto_inv_def content_def by auto
  then have same: "map (\<lambda>k. rec_of (rnodes h0 ! k)) (KS d) = map (\<lambda>k. rec_of (rnodes h ! k)) (KS d)"
    by simp
  have own: "resultList h0 (results (states h0 ! d)) = Some (map (\<lambda>k. rec_of (rnodes h ! k)) (KS d))"
    using resultList_seg[OF s0] same by (simp add: res_def)
  from ai assms(3) have sg: "seg h (res h d) (KS d) (case fb h d of None \<Rightarrow> None | Some f \<Rightarrow> res h f)"
    unfolding auto_inv_def closed_def by blast
  from ai have fb0: "fb h 0 = None" by (simp add: auto_inv_def)
  have dD: "d \<in> {..<length (states h)}" using assms(3) by simp
  show ?thesis
  proof (cases "d = 0")
    case True
    with sg fb0 have "seg h (res h d) (KS d) None" by simp
    from resultList_seg[OF this] own True fb0 r0 show ?thesis
      by (simp add: res_def fb_def)
  next
    case False
    from auto_inv_fb[OF ai dD False] obtain f where
      f: "f \<in> {..<length (states h)}" "fb h d = Some f" by blast
    from full_seg[OF ai f(1)] obtain ks where ks: "seg h (res h f) ks None" by blast
    from sg f(2) have "seg h (res h d) (KS d) (res h f)" by simp
    with ks have "seg h (res h d) (KS d @ ks) None" by (auto simp: seg_append)
    from resultList_seg[OF this] resultList_seg[OF ks] own f(2) False r0
    show ?thesis by (simp add: res_def fb_def)
  qed
qed

theorem result_lists_closed_witness:
  "buildForestFromPattern pat_ab = Some (forest_ab, 0) \<and>
   forestIntoStateMachine forest_ab 0 = Some machine_ab \<and>
   2 < length (states machine_ab) \<and>
   fallback (states machine_ab ! 2) = Some 3 \<and>
   resultList forest_ab (results (states forest_ab ! 2)) = Some [(0, 2)] \<and>
   resultList machine_ab (results (states machine_ab ! 3)) = Some [(1, 1)] \<and>
   resultList machine_ab (results (states machine_ab ! 2)) = Some ([(0, 2)] @ [(1, 1)])"
proof -
  have l: "2 < length (states machine_ab)" by (simp add: machine_ab_def)
  have f: "fallback (states machine_ab ! 2) = Some 3" by (simp add: machine_ab_def)
  have o: "resultList forest_ab (results (states forest_ab ! 2)) = Some [(0, 2)]"
    by (simp add: resultList_def forResults.simps forest_ab_def getResult_def)
  from result_lists_closed[OF build_ab compile_ab l] f o
  have "\<exists>inh. resultList machine_ab (results (states machine_ab ! 3)) = Some inh \<and>
          resultList machine_ab (results (states machine_ab ! 2)) = Some ([(0, 2)] @ inh)"
    by simp
  moreover have "resultList machine_ab (results (states machine_ab ! 3)) = Some [(1, 1)]"
    by (simp add: resultList_def forResults.simps machine_ab_def getResult_def)
  ultimately show ?thesis using build_ab compile_ab l f o by auto
qed

text \<open>
  C3. Complement dominance. For a pattern that satisfies the invariants, a start offset
  \<open>s\<close> at which the text has the forbidden character of some complement at
  \<open>s + index\<close> is not among the offsets that the scan returns, whatever the parts do at
  \<open>s\<close> and in whatever order the records arrive.
\<close>

theorem complement_dominates:
  assumes "pattern_ok pat" and "fits pat str"
    and "c \<in> set (complement pat)"
    and "s + index c < length str" and "str ! (s + index c) = ch_c c"
  shows "\<exists>h0 root h ms. buildForestFromPattern pat = Some (h0, root) \<and>
     forestIntoStateMachine h0 root = Some h \<and>
     getTotalMatches h root pat str = Some ms \<and> s \<notin> set ms"
proof -
  have "s \<notin> set (all_matches pat str)"
    using assms(3,4,5) by (auto simp: all_matches_def pattern_at_def complement_fires_def)
  with getTotalMatches_correct[OF assms(1,2)] show ?thesis by blast
qed

theorem complement_dominates_witness:
  "pattern_ok pat_z \<and> fits pat_z ''xabzcabqc'' \<and>
   \<lparr>index = 2, ch_c = CHR ''z''\<rparr> \<in> set (complement pat_z) \<and>
   1 + index \<lparr>index = 2, ch_c = CHR ''z''\<rparr> < length ''xabzcabqc'' \<and>
   ''xabzcabqc'' ! (1 + index \<lparr>index = 2, ch_c = CHR ''z''\<rparr>) = ch_c \<lparr>index = 2, ch_c = CHR ''z''\<rparr> \<and>
   part_matches ''xabzcabqc'' 1 \<lparr>offset = 0, chars = ''ab''\<rparr> \<and>
   part_matches ''xabzcabqc'' 1 \<lparr>offset = 3, chars = ''c''\<rparr> \<and>
   (\<exists>h0 root h ms. buildForestFromPattern pat_z = Some (h0, root) \<and>
      forestIntoStateMachine h0 root = Some h \<and>
      getTotalMatches h root pat_z ''xabzcabqc'' = Some ms \<and> 1 \<notin> set ms)"
proof -
  have ok: "pattern_ok pat_z" by (simp add: pattern_ok_def pat_z_def)
  have ft: "fits pat_z ''xabzcabqc''" by (simp add: fits_def pat_z_def)
  have c: "\<lparr>index = 2, ch_c = CHR ''z''\<rparr> \<in> set (complement pat_z)" by (simp add: pat_z_def)
  have l: "1 + index \<lparr>index = 2, ch_c = CHR ''z''\<rparr> < length ''xabzcabqc''" by simp
  have e: "''xabzcabqc'' ! (1 + index \<lparr>index = 2, ch_c = CHR ''z''\<rparr>) =
      ch_c \<lparr>index = 2, ch_c = CHR ''z''\<rparr>" by simp
  have p: "part_matches ''xabzcabqc'' 1 \<lparr>offset = 0, chars = ''ab''\<rparr>"
    "part_matches ''xabzcabqc'' 1 \<lparr>offset = 3, chars = ''c''\<rparr>"
    by (simp_all add: part_matches_def)
  from complement_dominates[OF ok ft c l e] ok ft c l e p show ?thesis by blast
qed

text \<open>
  C4. For a pattern without wildcards and complements, that is one part at offset 0 whose
  length is the length of the pattern, the scan returns what the naive search for the
  part returns: the start offsets at which the text continues with the part, in
  increasing order.
\<close>

theorem single_part_is_naive_search:
  assumes "needle \<noteq> []" and "length str + length needle < 2 ^ 64"
    and "pat = \<lparr>parts = [\<lparr>offset = 0, chars = needle\<rparr>], complement = [],
                 length_p = length needle\<rparr>"
  shows "\<exists>h0 root h. buildForestFromPattern pat = Some (h0, root) \<and>
     forestIntoStateMachine h0 root = Some h \<and>
     getTotalMatches h root pat str = Some (naive_search needle str)"
proof -
  have ok: "pattern_ok pat" using assms(1,3) by (simp add: pattern_ok_def)
  have ft: "fits pat str" using assms(2,3) by (simp add: fits_def)
  have "pattern_at pat str = (\<lambda>s. take (length needle) (drop s str) = needle)"
    using assms(3) by (intro ext) (simp add: pattern_at_def part_matches_def)
  then have "all_matches pat str = naive_search needle str"
    using assms(3) by (simp add: all_matches_def naive_search_def)
  with getTotalMatches_correct[OF ok ft] show ?thesis by auto
qed

theorem single_part_is_naive_search_witness:
  "''ab'' \<noteq> [] \<and> length ''abab'' + length ''ab'' < (2::nat) ^ 64 \<and>
   naive_search ''ab'' ''abab'' = [0, 2] \<and>
   (\<exists>h0 root h.
      buildForestFromPattern \<lparr>parts = [\<lparr>offset = 0, chars = ''ab''\<rparr>], complement = [],
                               length_p = length ''ab''\<rparr> = Some (h0, root) \<and>
      forestIntoStateMachine h0 root = Some h \<and>
      getTotalMatches h root \<lparr>parts = [\<lparr>offset = 0, chars = ''ab''\<rparr>], complement = [],
                               length_p = length ''ab''\<rparr> ''abab'' = Some [0, 2])"
proof -
  have n: "''ab'' \<noteq> []" by simp
  have l: "length ''abab'' + length ''ab'' < (2::nat) ^ 64" by simp
  have v: "naive_search ''ab'' ''abab'' = [0, 2]"
    by (simp add: naive_search_def upt_rec)
  from single_part_is_naive_search[OF n l refl] v n l show ?thesis by simp
qed

text \<open>
  C5. For a pattern made of wildcards only (no parts, no complements, a positive length
  \<open>L\<close>) the scan returns every start offset from 0 to \<open>length str - L\<close>, and none when
  \<open>L\<close> exceeds the length of the text. No case of the scan is special to such patterns.
\<close>

theorem all_wildcards_match_everywhere:
  assumes "0 < L" and "length str + L < 2 ^ 64"
    and "pat = \<lparr>parts = [], complement = [], length_p = L\<rparr>"
  shows "\<exists>h0 root h. buildForestFromPattern pat = Some (h0, root) \<and>
     forestIntoStateMachine h0 root = Some h \<and>
     getTotalMatches h root pat str = Some [0..<length str + 1 - L]"
proof -
  have ok: "pattern_ok pat" using assms(1,3) by (simp add: pattern_ok_def)
  have ft: "fits pat str" using assms(2,3) by (simp add: fits_def)
  have "pattern_at pat str = (\<lambda>s. True)"
    using assms(3) by (intro ext) (simp add: pattern_at_def)
  then have "all_matches pat str = [0..<length str + 1 - L]"
    using assms(3) by (simp add: all_matches_def)
  with getTotalMatches_correct[OF ok ft] show ?thesis by auto
qed

theorem all_wildcards_match_everywhere_witness:
  "(0::nat) < 2 \<and> length ''abcd'' + 2 < (2::nat) ^ 64 \<and>
   (\<exists>h0 root h.
      buildForestFromPattern \<lparr>parts = [], complement = [], length_p = 2\<rparr> = Some (h0, root) \<and>
      forestIntoStateMachine h0 root = Some h \<and>
      getTotalMatches h root \<lparr>parts = [], complement = [], length_p = 2\<rparr> ''abcd'' = Some [0, 1, 2])"
proof -
  have p: "(0::nat) < 2" by simp
  have l: "length ''abcd'' + 2 < (2::nat) ^ 64" by simp
  have e: "[0..<length ''abcd'' + 1 - 2] = [0, 1, 2]" by (simp add: upt_rec)
  from all_wildcards_match_everywhere[OF p l refl]
  have "\<exists>h0 root h.
      buildForestFromPattern \<lparr>parts = [], complement = [], length_p = 2\<rparr> = Some (h0, root) \<and>
      forestIntoStateMachine h0 root = Some h \<and>
      getTotalMatches h root \<lparr>parts = [], complement = [], length_p = 2\<rparr> ''abcd'' = Some [0, 1, 2]"
    by (simp only: e)
  with p l show ?thesis by blast
qed

text \<open>
  C6. In the automaton of a pattern, the fallback of the state reached from the root by a
  non-empty string \<open>w\<close> is the state reached by the longest proper suffix of \<open>w\<close> that
  is a path from the root (the empty suffix, which leads to the root, when there is no
  other). The fallback of the root stays null, and looking for a fallback from it
  dereferences nothing.
\<close>

theorem fallback_longest_proper_suffix:
  assumes "buildForestFromPattern pat = Some (h0, root)"
    and "forestIntoStateMachine h0 root = Some h"
    and "walk h root w = Some d" and "w \<noteq> []"
  shows "(\<exists>f u. fallback (states h ! d) = Some f \<and> walk h root u = Some f \<and>
            strict_suffix u w \<and>
            (\<forall>v. strict_suffix v w \<and> walk h root v \<noteq> None \<longrightarrow> length v \<le> length u)) \<and>
         fallback (states h ! root) = None \<and>
         findFallback h (fallback (states h ! root)) c = Some None"
proof -
  from pipeline_inv[OF assms(1,2)] obtain P KS where
    r0: "root = 0" and ai: "auto_inv h P KS (inserted pat) {..<length (states h)}" by blast
  from ai have tr: "trie h P" and fb0: "fb h 0 = None" by (auto simp: auto_inv_def)
  from assms(3) r0 have d: "d < length (states h)" "P d = w"
    using walk_iff_path[OF tr] by auto
  from tr have "P 0 = []" by (simp add: trie_def)
  with d assms(4) have d0: "d \<noteq> 0" by metis
  from d have dD: "d \<in> {..<length (states h)}" by simp
  from auto_inv_fb[OF ai dD d0] obtain f where
    f: "fb h d = Some f" "lps_of (paths h P) (P d) (P f)" "f < length (states h)" by blast
  have "walk h root (P f) = Some f" using walk_iff_path[OF tr] f(3) r0 by simp
  moreover have "strict_suffix (P f) w" using f(2) d by (simp add: lps_of_def)
  moreover have "\<forall>v. strict_suffix v w \<and> walk h root v \<noteq> None \<longrightarrow> length v \<le> length (P f)"
    using f(2) d r0 walk_defined_iff[OF tr] by (simp add: lps_of_def)
  ultimately have "\<exists>f u. fallback (states h ! d) = Some f \<and> walk h root u = Some f \<and>
      strict_suffix u w \<and>
      (\<forall>v. strict_suffix v w \<and> walk h root v \<noteq> None \<longrightarrow> length v \<le> length u)"
    using f(1) by (auto simp: fb_def)
  moreover have "fallback (states h ! root) = None" using fb0 r0 by (simp add: fb_def)
  moreover have "findFallback h None c = Some None" by (simp add: findFallback.simps)
  ultimately show ?thesis by simp
qed

theorem fallback_longest_proper_suffix_witness:
  "buildForestFromPattern pat_ab = Some (forest_ab, 0) \<and>
   forestIntoStateMachine forest_ab 0 = Some machine_ab \<and>
   walk machine_ab 0 ''ab'' = Some 2 \<and> ''ab'' \<noteq> [] \<and>
   fallback (states machine_ab ! 2) = Some 3 \<and> walk machine_ab 0 ''b'' = Some 3 \<and>
   fallback (states machine_ab ! 0) = None"
proof -
  have w: "walk machine_ab 0 ''ab'' = Some 2"
    by (simp add: machine_ab_def getState_def findTransition_def)
  have n: "''ab'' \<noteq> []" by simp
  have "walk machine_ab 0 ''b'' = Some 3"
    by (simp add: machine_ab_def getState_def findTransition_def)
  moreover have "fallback (states machine_ab ! 2) = Some 3" by (simp add: machine_ab_def)
  ultimately show ?thesis
    using fallback_longest_proper_suffix[OF build_ab compile_ab w n] build_ab compile_ab w
    by simp
qed

text \<open>
  C7, as the program has it. \<open>buildForestFromPattern\<close> checks nothing: for every
  pattern, malformed or not, it returns a trie, with one result record for each part and
  each complement. A malformed pattern is neither rejected nor repaired.
\<close>

theorem buildForest_accepts_every_pattern:
  "\<exists>h root. buildForestFromPattern pat = Some (h, root) \<and>
     length (rnodes h) = length (parts pat) + length (complement pat)"
proof -
  from buildForest_inv[of pat] obtain h where b: "buildForestFromPattern pat = Some (h, 0)"
    by blast
  then obtain h1 where
    1: "insertParts \<lparr>states = [newState], rnodes = []\<rparr> 0 (parts pat) 0 = Some h1"
       "insertComplements h1 0 (complement pat) (length (parts pat)) 0 = Some h"
    by (auto simp: buildForestFromPattern_def allocState_def emptyHeap_def split: bind_splits)
  from insertParts_rnodes[OF 1(1)] insertComplements_rnodes[OF 1(2)]
  have "length (rnodes h) = length (parts pat) + length (complement pat)" by simp
  with b show ?thesis by blast
qed

text \<open>
  C7, as the specification has it, fails: the pattern \<open>bad_pat\<close> has length 1 and a
  complement at offset 2; a trie is built from it, and the search of a text returns a list
  of offsets as for any other pattern.
\<close>

theorem malformed_pattern_not_rejected:
  "malformed bad_pat \<and> buildForestFromPattern bad_pat = Some (forest_bad, 0) \<and>
   searchPattern bad_pat ''zzz'' = Some [0, 1]"
  using build_bad search_bad by (simp add: malformed_def bad_pat_def)

text \<open>
  C8, at the failing input. With the empty pattern (no parts, no complements, length 0)
  and the text \<open>a\<close> the scan has no result: the vectors \<open>partial_matches\<close> and
  \<open>disabled\<close> are empty, and the first iteration writes their element 0.
\<close>

theorem empty_pattern_scan_fails:
  "searchPattern empty_pat ''a'' = None"
proof -
  have b: "buildForestFromPattern empty_pat = Some (\<lparr>states = [newState], rnodes = []\<rparr>, 0)"
    by (simp add: buildForestFromPattern_def empty_pat_def allocState_def emptyHeap_def)
  have c: "forestIntoStateMachine \<lparr>states = [newState], rnodes = []\<rparr> 0 =
      Some \<lparr>states = [newState], rnodes = []\<rparr>"
    by (simp add: forestIntoStateMachine_def stateMachineLoop.simps getState_def newState_def)
  have s: "getTotalMatches \<lparr>states = [newState], rnodes = []\<rparr> 0 empty_pat ''a'' = None"
    by (simp add: getTotalMatches_def scanFrom_def vec_set_def empty_pat_def)
  show ?thesis
    by (simp add: searchPattern_def b c s)
qed

text \<open>
  C9. In the automaton of a pattern \<open>stepMatching\<close> returns from every state and for
  every character. Only the root has a null fallback, and the fallback of any other state
  lies nearer to the root than the state itself, so the loop over the fallbacks ends.
\<close>

theorem stepMatching_terminates:
  assumes "buildForestFromPattern pat = Some (h0, root)"
    and "forestIntoStateMachine h0 root = Some h"
    and "x < length (states h)"
  shows "(\<exists>b y. stepMatching h x c = Some (b, y)) \<and>
         (fallback (states h ! x) = None \<longleftrightarrow> x = root) \<and>
         (\<forall>f. fallback (states h ! x) = Some f \<longrightarrow>
            (\<exists>w u. walk h root w = Some x \<and> walk h root u = Some f \<and> length u < length w))"
proof -
  from pipeline_inv[OF assms(1,2)] obtain P KS where
    r0: "root = 0" and ai: "auto_inv h P KS (inserted pat) {..<length (states h)}" by blast
  from ai have tr: "trie h P" and fb0: "fb h 0 = None" by (auto simp: auto_inv_def)
  have xD: "x \<in> {..<length (states h)}" using assms(3) by simp
  from findFallback_sem[OF ai xD, of c] obtain r where
    "findFallback h (Some x) c = Some r" by blast
  from stepMatching_findFallback[OF ai xD this]
  have 1: "\<exists>b y. stepMatching h x c = Some (b, y)" by (cases r) auto
  have 2: "fallback (states h ! x) = None \<longleftrightarrow> x = root"
  proof (cases "x = 0")
    case True with fb0 r0 show ?thesis by (simp add: fb_def)
  next
    case False
    from auto_inv_fb[OF ai xD False] obtain f where "fb h x = Some f" by blast
    with False r0 show ?thesis by (simp add: fb_def)
  qed
  have 3: "\<forall>f. fallback (states h ! x) = Some f \<longrightarrow>
            (\<exists>w u. walk h root w = Some x \<and> walk h root u = Some f \<and> length u < length w)"
  proof (intro allI impI)
    fix f assume f: "fallback (states h ! x) = Some f"
    with fb0 have x0: "x \<noteq> 0" by (metis fb_def option.distinct(1))
    from auto_inv_fb[OF ai xD x0] f obtain
      "length (P f) < length (P x)" "f < length (states h)" by (auto simp: fb_def)
    moreover have "walk h root (P x) = Some x" "f < length (states h) \<Longrightarrow> walk h root (P f) = Some f"
      using walk_iff_path[OF tr] assms(3) r0 by auto
    ultimately show "\<exists>w u. walk h root w = Some x \<and> walk h root u = Some f \<and> length u < length w"
      by blast
  qed
  from 1 2 3 show ?thesis by blast
qed

theorem stepMatching_terminates_witness:
  "buildForestFromPattern pat_ab = Some (forest_ab, 0) \<and>
   forestIntoStateMachine forest_ab 0 = Some machine_ab \<and>
   2 < length (states machine_ab) \<and>
   (\<exists>b y. stepMatching machine_ab 2 (CHR ''b'') = Some (b, y)) \<and>
   stepMatching machine_ab 2 (CHR ''b'') = Some (True, 3) \<and>
   fallback (states machine_ab ! 2) \<noteq> None"
proof -
  have l: "2 < length (states machine_ab)" by (simp add: machine_ab_def)
  have "stepMatching machine_ab 2 (CHR ''b'') = Some (True, 3)"
    by (simp add: stepMatching.simps machine_ab_def getState_def findTransition_def)
  then show ?thesis
    using stepMatching_terminates[OF build_ab compile_ab l, of "CHR ''b''"] build_ab compile_ab l
    by simp
qed

text \<open>
  C10. Under the invariants of the pattern no subtraction of the scan wraps around: run
  with checked arithmetic, in which a subtraction with a negative result has no result,
  the scan still returns, and it returns what the program returns.
\<close>

theorem scan_subtractions_do_not_wrap:
  assumes "pattern_ok pat" and "fits pat str"
  shows "\<exists>h0 root h ms. buildForestFromPattern pat = Some (h0, root) \<and>
     forestIntoStateMachine h0 root = Some h \<and>
     scanFrom Checked h root pat str = Some ms \<and>
     getTotalMatches h root pat str = Some ms"
  using getTotalMatches_correct[OF assms] by blast

theorem scan_subtractions_do_not_wrap_witness:
  "pattern_ok pat_z \<and> fits pat_z ''xabzcabqc'' \<and>
   (\<exists>h0 root h ms. buildForestFromPattern pat_z = Some (h0, root) \<and>
      forestIntoStateMachine h0 root = Some h \<and>
      scanFrom Checked h root pat_z ''xabzcabqc'' = Some ms \<and>
      getTotalMatches h root pat_z ''xabzcabqc'' = Some ms)"
proof -
  have ok: "pattern_ok pat_z" by (simp add: pattern_ok_def pat_z_def)
  have ft: "fits pat_z ''xabzcabqc''" by (simp add: fits_def pat_z_def)
  from scan_subtractions_do_not_wrap[OF ok ft] ok ft show ?thesis by blast
qed

end
